theory Spec2Isabelle
  imports Complex_Main "HOL-Library.Multiset" "HOL-Library.Product_Lexorder"
begin

section \<open>Strings and slices as the scripts use them\<close>

text \<open>
  The scripts under \<^verbatim>\<open>src/\<close> read two Markdown files and compare them with Python's
  \<^verbatim>\<open>difflib\<close>. A text is a \<^typ>\<open>string\<close>, a list of lines is a \<^typ>\<open>string list\<close>.
  \<^verbatim>\<open>s.startswith(p)\<close>, \<^verbatim>\<open>p in s\<close> and the slice \<^verbatim>\<open>xs[lo:hi]\<close> (for non-negative
  bounds) are the three string operations the scripts rely on.
\<close>

definition startswith :: "'a list \<Rightarrow> 'a list \<Rightarrow> bool" where
  "startswith s p = (take (length p) s = p)"

fun py_in :: "'a list \<Rightarrow> 'a list \<Rightarrow> bool" where
  "py_in p [] = (p = [])"
| "py_in p (c # s) = (startswith (c # s) p \<or> py_in p s)"

definition slice :: "'a list \<Rightarrow> nat \<Rightarrow> nat \<Rightarrow> 'a list" where
  "slice xs lo hi = take (hi - lo) (drop lo xs)"

section \<open>Issue buckets of \<^verbatim>\<open>detailed_diff.py\<close>\<close>

text \<open>
  Lines 18 to 27 of \<^verbatim>\<open>detailed_diff.py\<close> turn every \<^verbatim>\<open>-\<close> line of the unified diff
  into an issue \<^verbatim>\<open>('missing', content)\<close> and every \<^verbatim>\<open>+\<close> line into
  \<^verbatim>\<open>('extra', content)\<close>, the content being the stripped line. No other tag is ever
  built, so the tag is a two-valued datatype.
\<close>

datatype issue_kind = Missing | Extra

type_synonym issue = "issue_kind \<times> string"

text \<open>
  The four conditions of the generator expressions at lines 34 to 37. Python's \<^verbatim>\<open>and\<close>
  binds tighter than \<^verbatim>\<open>or\<close>, so the last one reads
  \<^verbatim>\<open>(t == 'extra' and 'Abstract' in content) or 'Introduction' in content\<close>.
\<close>

definition is_missing_break :: "issue \<Rightarrow> bool" where
  "is_missing_break = (\<lambda>(t, content). t = Missing \<and> content = [])"

definition is_extra_break :: "issue \<Rightarrow> bool" where
  "is_extra_break = (\<lambda>(t, content). t = Extra \<and> content = [])"

definition is_missing_header :: "issue \<Rightarrow> bool" where
  "is_missing_header = (\<lambda>(t, content). t = Missing \<and> startswith content ''##'')"

definition is_wrong_join :: "issue \<Rightarrow> bool" where
  "is_wrong_join = (\<lambda>(t, content).
     (t = Extra \<and> py_in ''Abstract'' content) \<or> py_in ''Introduction'' content)"

text \<open>\<^verbatim>\<open>sum(1 for t, content in issues if cond)\<close> counts the issues that satisfy \<^verbatim>\<open>cond\<close>.\<close>

definition count_if :: "('a \<Rightarrow> bool) \<Rightarrow> 'a list \<Rightarrow> nat" where
  "count_if cond xs = length (filter cond xs)"

definition missing_breaks :: "issue list \<Rightarrow> nat" where
  "missing_breaks issues = count_if is_missing_break issues"

definition extra_breaks :: "issue list \<Rightarrow> nat" where
  "extra_breaks issues = count_if is_extra_break issues"

definition missing_headers :: "issue list \<Rightarrow> nat" where
  "missing_headers issues = count_if is_missing_header issues"

definition wrong_joins :: "issue list \<Rightarrow> nat" where
  "wrong_joins issues = count_if is_wrong_join issues"

text \<open>The number of the four counters that one issue increments.\<close>

definition buckets_hit :: "issue \<Rightarrow> nat" where
  "buckets_hit x =
     (if is_missing_break x then 1 else 0) + (if is_extra_break x then 1 else 0)
     + (if is_missing_header x then 1 else 0) + (if is_wrong_join x then 1 else 0)"

section \<open>The sequence matcher the scripts call\<close>

text \<open>
  Every similarity in the scripts is \<^verbatim>\<open>SequenceMatcher(None, a, b).ratio()\<close> of Python's
  standard \<^verbatim>\<open>difflib\<close>, and every diff is \<^verbatim>\<open>unified_diff\<close> of the same module (both
  built on \<^verbatim>\<open>get_matching_blocks\<close>). The definitions below follow \<^verbatim>\<open>difflib.py\<close>
  function by function, for the arguments the scripts pass: \<^verbatim>\<open>isjunk\<close> is \<^verbatim>\<open>None\<close> and
  \<^verbatim>\<open>autojunk\<close> keeps its default \<^verbatim>\<open>True\<close>. Indices are natural numbers; where Python
  would compute with a negative intermediate value the model says so.

  \<^verbatim>\<open>__chain_b\<close>: \<^verbatim>\<open>b2j[elt]\<close> lists the indices of \<^verbatim>\<open>elt\<close> in \<^verbatim>\<open>b\<close> in increasing
  order; with no junk predicate \<^verbatim>\<open>bjunk\<close> stays empty; when \<^verbatim>\<open>b\<close> has 200 elements or
  more, every element with more than \<^verbatim>\<open>n // 100 + 1\<close> occurrences is popular and its
  entry is deleted.
\<close>

definition chain_indices :: "'a list \<Rightarrow> 'a \<Rightarrow> nat list" where
  "chain_indices b elt = filter (\<lambda>j. b ! j = elt) [0..<length b]"

definition popular :: "'a list \<Rightarrow> 'a \<Rightarrow> bool" where
  "popular b elt =
     (length b \<ge> 200 \<and> length (chain_indices b elt) > length b div 100 + 1)"

text \<open>\<^verbatim>\<open>b2j.get(elt, nothing)\<close> after \<^verbatim>\<open>__chain_b\<close> has run.\<close>

definition b2j_get :: "'a list \<Rightarrow> 'a \<Rightarrow> nat list" where
  "b2j_get b elt = (if popular b elt then [] else chain_indices b elt)"

text \<open>\<^verbatim>\<open>isbjunk = self.bjunk.__contains__\<close>, the set \<^verbatim>\<open>bjunk\<close> being empty.\<close>

definition isbjunk :: "'a \<Rightarrow> bool" where
  "isbjunk elt = False"

type_synonym match = "nat \<times> nat \<times> nat"

text \<open>
  The inner loop of \<^verbatim>\<open>find_longest_match\<close>: \<^verbatim>\<open>for j in b2j.get(a[i], nothing)\<close>, with
  its \<^verbatim>\<open>continue\<close> and \<^verbatim>\<open>break\<close>. The dictionaries \<^verbatim>\<open>j2len\<close> and \<^verbatim>\<open>newj2len\<close> are
  only read through \<^verbatim>\<open>get(key, 0)\<close>, so they are functions with default 0. For
  \<^verbatim>\<open>j = 0\<close> Python looks up the key -1, which is never present. Python's \<^verbatim>\<open>i-k+1\<close> is
  written \<^verbatim>\<open>i+1-k\<close>; the two agree because \<^verbatim>\<open>k\<close> never exceeds \<^verbatim>\<open>i+1\<close> or \<^verbatim>\<open>j+1\<close>.
\<close>

fun chain_loop ::
  "nat \<Rightarrow> nat \<Rightarrow> nat \<Rightarrow> (nat \<Rightarrow> nat) \<Rightarrow> nat list \<Rightarrow> (nat \<Rightarrow> nat) \<times> match
     \<Rightarrow> (nat \<Rightarrow> nat) \<times> match" where
  "chain_loop i blo bhi j2len [] st = st"
| "chain_loop i blo bhi j2len (j # js) (newj2len, besti, bestj, bestsize) =
     (if j < blo then chain_loop i blo bhi j2len js (newj2len, besti, bestj, bestsize)
      else if j \<ge> bhi then (newj2len, besti, bestj, bestsize)
      else let k = (if j = 0 then 0 else j2len (j - 1)) + 1 in
           chain_loop i blo bhi j2len js
             (newj2len(j := k),
              if k > bestsize then (i + 1 - k, j + 1 - k, k) else (besti, bestj, bestsize)))"

text \<open>The outer loop \<^verbatim>\<open>for i in range(alo, ahi)\<close>; each row starts a fresh \<^verbatim>\<open>newj2len\<close>.\<close>

fun row_loop ::
  "'a list \<Rightarrow> 'a list \<Rightarrow> nat \<Rightarrow> nat \<Rightarrow> nat list \<Rightarrow> (nat \<Rightarrow> nat) \<times> match
     \<Rightarrow> (nat \<Rightarrow> nat) \<times> match" where
  "row_loop a b blo bhi [] st = st"
| "row_loop a b blo bhi (i # is) (j2len, best) =
     row_loop a b blo bhi is
       (chain_loop i blo bhi j2len (b2j_get b (a ! i)) (\<lambda>_. 0, best))"

text \<open>
  The four \<^verbatim>\<open>while\<close> loops that extend the best match: backwards and forwards over
  non-junk elements, then backwards and forwards over junk elements. The flag \<open>junk\<close>
  tells which of the two tests, \<^verbatim>\<open>not isbjunk(...)\<close> or \<^verbatim>\<open>isbjunk(...)\<close>, the loop makes.
\<close>

function extend_back :: "'a list \<Rightarrow> 'a list \<Rightarrow> nat \<Rightarrow> nat \<Rightarrow> bool \<Rightarrow> match \<Rightarrow> match" where
  "extend_back a b alo blo junk (besti, bestj, bestsize) =
     (if besti > alo \<and> bestj > blo \<and> isbjunk (b ! (bestj - 1)) = junk
         \<and> a ! (besti - 1) = b ! (bestj - 1)
      then extend_back a b alo blo junk (besti - 1, bestj - 1, bestsize + 1)
      else (besti, bestj, bestsize))"
  by pat_completeness auto
termination
  by (relation "measure (\<lambda>(a, b, alo, blo, junk, besti, bestj, bestsize). besti)") auto

function extend_fwd :: "'a list \<Rightarrow> 'a list \<Rightarrow> nat \<Rightarrow> nat \<Rightarrow> bool \<Rightarrow> match \<Rightarrow> match" where
  "extend_fwd a b ahi bhi junk (besti, bestj, bestsize) =
     (if besti + bestsize < ahi \<and> bestj + bestsize < bhi
         \<and> isbjunk (b ! (bestj + bestsize)) = junk
         \<and> a ! (besti + bestsize) = b ! (bestj + bestsize)
      then extend_fwd a b ahi bhi junk (besti, bestj, bestsize + 1)
      else (besti, bestj, bestsize))"
  by pat_completeness auto
termination
  by (relation "measure (\<lambda>(a, b, ahi, bhi, junk, besti, bestj, bestsize).
        ahi - (besti + bestsize))") auto

definition find_longest_match :: "'a list \<Rightarrow> 'a list \<Rightarrow> nat \<Rightarrow> nat \<Rightarrow> nat \<Rightarrow> nat \<Rightarrow> match" where
  "find_longest_match a b alo ahi blo bhi =
     extend_fwd a b ahi bhi True
       (extend_back a b alo blo True
         (extend_fwd a b ahi bhi False
           (extend_back a b alo blo False
             (snd (row_loop a b blo bhi [alo..<ahi] (\<lambda>_. 0, (alo, blo, 0)))))))"

text \<open>
  The work loop of \<^verbatim>\<open>get_matching_blocks\<close>. The Python list \<^verbatim>\<open>queue\<close> is used as a
  stack (\<^verbatim>\<open>pop()\<close> takes the last element, \<^verbatim>\<open>append\<close> adds at the end); here the head of
  the list is the top of that stack, so the right-hand rectangle, appended last, comes
  first.
\<close>

function mb_loop ::
  "'a list \<Rightarrow> 'a list \<Rightarrow> (nat \<times> nat \<times> nat \<times> nat) list \<Rightarrow> match list \<Rightarrow> match list" where
  "mb_loop a b [] matching_blocks = matching_blocks"
| "mb_loop a b ((alo, ahi, blo, bhi) # queue) matching_blocks =
     (case find_longest_match a b alo ahi blo bhi of (i, j, k) \<Rightarrow>
        if k \<noteq> 0 then
          mb_loop a b
            ((if i + k < ahi \<and> j + k < bhi then [(i + k, ahi, j + k, bhi)] else [])
             @ (if alo < i \<and> blo < j then [(alo, i, blo, j)] else [])
             @ queue)
            (matching_blocks @ [(i, j, k)])
        else mb_loop a b queue matching_blocks)"
  by pat_completeness auto

text \<open>
  The loop that merges adjacent blocks, \<^verbatim>\<open>for i2, j2, k2 in matching_blocks\<close>, with the
  \<^verbatim>\<open>if k1: non_adjacent.append(...)\<close> that follows it.
\<close>

fun collapse :: "match \<Rightarrow> match list \<Rightarrow> match list \<Rightarrow> match list" where
  "collapse (i1, j1, k1) [] non_adjacent =
     (if k1 \<noteq> 0 then non_adjacent @ [(i1, j1, k1)] else non_adjacent)"
| "collapse (i1, j1, k1) ((i2, j2, k2) # rest) non_adjacent =
     (if i1 + k1 = i2 \<and> j1 + k1 = j2 then collapse (i1, j1, k1 + k2) rest non_adjacent
      else collapse (i2, j2, k2) rest
             (if k1 \<noteq> 0 then non_adjacent @ [(i1, j1, k1)] else non_adjacent))"

text \<open>
  \<^verbatim>\<open>matching_blocks.sort()\<close> orders the triples lexicographically, as \<^const>\<open>sort\<close> does
  on products.
\<close>

definition get_matching_blocks :: "'a list \<Rightarrow> 'a list \<Rightarrow> match list" where
  "get_matching_blocks a b =
     collapse (0, 0, 0) (sort (mb_loop a b [(0, length a, 0, length b)] [])) []
     @ [(length a, length b, 0)]"

text \<open>
  \<^verbatim>\<open>_calculate_ratio\<close> and \<^verbatim>\<open>ratio\<close>. Python computes \<^verbatim>\<open>2.0 * matches / length\<close> in
  floating point; the model keeps the exact quotient. A division raises
  \<^verbatim>\<open>ZeroDivisionError\<close> on a zero divisor and indexing raises \<^verbatim>\<open>IndexError\<close> out of
  range: both are values of the result type, so that a comparison that would raise
  returns \<open>Inl\<close>.
\<close>

datatype py_error = ZeroDivisionError | IndexError

definition truediv :: "rat \<Rightarrow> nat \<Rightarrow> py_error + rat" where
  "truediv x y = (if y = 0 then Inl ZeroDivisionError else Inr (x / of_nat y))"

definition calculate_ratio :: "nat \<Rightarrow> nat \<Rightarrow> py_error + rat" where
  "calculate_ratio matches len =
     (if len \<noteq> 0 then truediv (2 * of_nat matches) len else Inr 1)"

definition matches :: "'a list \<Rightarrow> 'a list \<Rightarrow> nat" where
  "matches a b = sum_list (map (\<lambda>(i, j, k). k) (get_matching_blocks a b))"

definition ratio :: "'a list \<Rightarrow> 'a list \<Rightarrow> py_error + rat" where
  "ratio a b = calculate_ratio (matches a b) (length a + length b)"

text \<open>\<^verbatim>\<open>get_opcodes\<close>: the hunks between and on the matching blocks.\<close>

datatype tag = Replace | Delete | Insert | Equal

type_synonym opcode = "tag \<times> nat \<times> nat \<times> nat \<times> nat"

fun opcodes_loop :: "nat \<Rightarrow> nat \<Rightarrow> match list \<Rightarrow> opcode list" where
  "opcodes_loop i j [] = []"
| "opcodes_loop i j ((ai, bj, sz) # rest) =
     (if i < ai \<and> j < bj then [(Replace, i, ai, j, bj)]
      else if i < ai then [(Delete, i, ai, j, bj)]
      else if j < bj then [(Insert, i, ai, j, bj)]
      else [])
     @ (if sz \<noteq> 0 then [(Equal, ai, ai + sz, bj, bj + sz)] else [])
     @ opcodes_loop (ai + sz) (bj + sz) rest"

definition get_opcodes :: "'a list \<Rightarrow> 'a list \<Rightarrow> opcode list" where
  "get_opcodes a b = opcodes_loop 0 0 (get_matching_blocks a b)"

declare extend_back.simps [simp del] extend_fwd.simps [simp del]

subsection \<open>Invariants of \<^verbatim>\<open>find_longest_match\<close>\<close>

text \<open>Validity of a \<^verbatim>\<open>j2len\<close> dictionary after the rows below \<open>n\<close>, and of a best match.\<close>

definition runs_ok :: "'a list \<Rightarrow> 'a list \<Rightarrow> nat \<Rightarrow> nat \<Rightarrow> nat \<Rightarrow> nat \<Rightarrow> (nat \<Rightarrow> nat) \<Rightarrow> bool" where
  "runs_ok a b alo blo bhi n f =
     (\<forall>j. f j \<le> n - alo \<and> f j \<le> j + 1 - blo \<and> (0 < f j \<longrightarrow> blo \<le> j \<and> j < bhi)
          \<and> (\<forall>t < f j. a ! (n - 1 - t) = b ! (j - t)))"

definition best_ok :: "'a list \<Rightarrow> 'a list \<Rightarrow> nat \<Rightarrow> nat \<Rightarrow> nat \<Rightarrow> nat \<Rightarrow> match \<Rightarrow> bool" where
  "best_ok a b alo ahi blo bhi = (\<lambda>(besti, bestj, bestsize).
     alo \<le> besti \<and> blo \<le> bestj
     \<and> (if bestsize = 0 then besti = alo \<and> bestj = blo
          else besti + bestsize \<le> ahi \<and> bestj + bestsize \<le> bhi)
     \<and> (\<forall>t < bestsize. a ! (besti + t) = b ! (bestj + t)))"

subsection \<open>Blocks in increasing order\<close>

text \<open>
  The blocks of one rectangle in increasing order: those to the left of its longest
  match, the match, those to its right. The work loop finds the same blocks in another
  order and \<^verbatim>\<open>sort\<close> restores this one.
\<close>

function blocks_rec :: "'a list \<Rightarrow> 'a list \<Rightarrow> nat \<Rightarrow> nat \<Rightarrow> nat \<Rightarrow> nat \<Rightarrow> match list" where
  "blocks_rec a b alo ahi blo bhi =
     (case find_longest_match a b alo ahi blo bhi of (i, j, k) \<Rightarrow>
        if k \<noteq> 0 then
          (if alo < i \<and> blo < j then blocks_rec a b alo i blo j else [])
          @ [(i, j, k)]
          @ (if i + k < ahi \<and> j + k < bhi then blocks_rec a b (i + k) ahi (j + k) bhi else [])
        else [])"
  by pat_completeness auto


definition rect_blocks :: "'a list \<Rightarrow> 'a list \<Rightarrow> nat \<times> nat \<times> nat \<times> nat \<Rightarrow> match list" where
  "rect_blocks a b = (\<lambda>(alo, ahi, blo, bhi). blocks_rec a b alo ahi blo bhi)"

text \<open>
  A list of blocks is aligned between \<open>(i, j)\<close> and \<open>(ie, je)\<close> when its blocks are
  non-empty runs of equal elements that follow each other without overlap on both sides.
\<close>

fun aligned :: "'a list \<Rightarrow> 'a list \<Rightarrow> nat \<Rightarrow> nat \<Rightarrow> match list \<Rightarrow> nat \<Rightarrow> nat \<Rightarrow> bool" where
  "aligned a b i j [] ie je = (i \<le> ie \<and> j \<le> je)"
| "aligned a b i j ((ai, bj, k) # rest) ie je =
     (i \<le> ai \<and> j \<le> bj \<and> 0 < k \<and> (\<forall>t<k. a ! (ai + t) = b ! (bj + t))
      \<and> aligned a b (ai + k) (bj + k) rest ie je)"

definition sizes :: "match list \<Rightarrow> nat" where
  "sizes blocks = sum_list (map (\<lambda>(i, j, k). k) blocks)"

text \<open>The block that \<^verbatim>\<open>collapse\<close> still holds back, if it is not the empty start block.\<close>

definition pending :: "match \<Rightarrow> match list" where
  "pending = (\<lambda>(i1, j1, k1). if k1 \<noteq> 0 then [(i1, j1, k1)] else [])"

subsection \<open>Runs on the diagonal\<close>

text \<open>
  \<open>dgs D m\<close> is the number of consecutive elements of \<open>D\<close> just below index \<open>m\<close>
  that are not popular, and \<open>pre f j\<close> is the lookup \<^verbatim>\<open>j2len.get(j-1, 0)\<close>.
\<close>

primrec dgs :: "'a list \<Rightarrow> nat \<Rightarrow> nat" where
  "dgs D 0 = 0"
| "dgs D (Suc m) = (if popular D (D ! m) then 0 else Suc (dgs D m))"

definition pre :: "(nat \<Rightarrow> nat) \<Rightarrow> nat \<Rightarrow> nat" where
  "pre f j = (if j = 0 then 0 else f (j - 1))"

section \<open>The scripts\<close>

text \<open>
  \<^verbatim>\<open>str.split(sep)\<close> and \<^verbatim>\<open>re.split\<close> with a literal pattern cut a text at the
  non-overlapping occurrences of the separator, found from the left; the scripts use the
  separators \<^verbatim>\<open>'\n'\<close> and \<^verbatim>\<open>'\n## '\<close>, never an empty one.
\<close>

function split_loop :: "'a list \<Rightarrow> 'a list \<Rightarrow> 'a list \<Rightarrow> 'a list list" where
  "split_loop sep piece s =
     (if s = [] then [piece]
      else if sep \<noteq> [] \<and> startswith s sep then piece # split_loop sep [] (drop (length sep) s)
      else split_loop sep (piece @ [hd s]) (tl s))"
  by pat_completeness auto
termination
  by (relation "measure (\<lambda>(sep, piece, s). length s)") auto

declare split_loop.simps [simp del]

definition newline :: char where
  "newline = CHR 0x0A"

definition split_lines :: "string \<Rightarrow> string list" where
  "split_lines s = split_loop [newline] [] s"

definition split_sections :: "string \<Rightarrow> string list" where
  "split_sections s = split_loop (newline # ''## '') [] s"

text \<open>\<^verbatim>\<open>xs[0]\<close> raises \<^verbatim>\<open>IndexError\<close> on an empty list; \<^verbatim>\<open>x * 100\<close> of a ratio.\<close>

definition index0 :: "'a list \<Rightarrow> py_error + 'a" where
  "index0 xs = (case xs of [] \<Rightarrow> Inl IndexError | x # _ \<Rightarrow> Inr x)"

definition percent :: "py_error + rat \<Rightarrow> py_error + rat" where
  "percent r = (case r of Inl e \<Rightarrow> Inl e | Inr x \<Rightarrow> Inr (x * 100))"

subsection \<open>\<^verbatim>\<open>compare_detailed.py\<close>, \<^verbatim>\<open>compare_modes.py\<close>, \<^verbatim>\<open>test_precision.py\<close>\<close>

text \<open>
  The overall similarity \<^verbatim>\<open>sim = SequenceMatcher(None, precision, docling).ratio() * 100\<close>
  compares the two texts as read from the files, character by character.
\<close>

definition sim :: "string \<Rightarrow> string \<Rightarrow> py_error + rat" where
  "sim precision docling = percent (ratio precision docling)"

text \<open>
  The section loop at lines 68 to 76 of \<^verbatim>\<open>compare_detailed.py\<close>; each printed line is
  an entry (index, title, similarity) of the result.
\<close>

fun section_loop :: "nat \<Rightarrow> (string \<times> string) list \<Rightarrow> py_error + (nat \<times> string \<times> rat) list" where
  "section_loop i [] = Inr []"
| "section_loop i ((d_sec, p_sec) # rest) =
     (if length d_sec < 10 then section_loop (i + 1) rest
      else case percent (ratio d_sec p_sec) of
        Inl e \<Rightarrow> Inl e
      | Inr sec_sim \<Rightarrow>
          (case index0 (split_lines d_sec) of
             Inl e \<Rightarrow> Inl e
           | Inr first_line \<Rightarrow>
               (case section_loop (i + 1) rest of
                  Inl e \<Rightarrow> Inl e
                | Inr out \<Rightarrow> Inr ((i, take 50 first_line, sec_sim) # out))))"

definition section_similarity :: "string \<Rightarrow> string \<Rightarrow> py_error + (nat \<times> string \<times> rat) list" where
  "section_similarity docling precision =
     section_loop 0 (zip (take 5 (split_sections docling)) (take 5 (split_sections precision)))"

subsection \<open>\<^verbatim>\<open>detailed_diff.py\<close>\<close>

fun find_loop :: "nat \<Rightarrow> string list \<Rightarrow> string \<Rightarrow> nat" where
  "find_loop i [] start_pattern = 0"
| "find_loop i (line # rest) start_pattern =
     (if py_in start_pattern line then i else find_loop (i + 1) rest start_pattern)"

definition find_section :: "string list \<Rightarrow> string \<Rightarrow> nat" where
  "find_section lines start_pattern = find_loop 0 lines start_pattern"

text \<open>
  Lines 56 to 65: the two Abstract regions are cut out only under the guard
  \<^verbatim>\<open>if abs_start_d and abs_start_p and intro_start_d and intro_start_p\<close>, an integer being
  true when it is not 0. \<open>None\<close> is the run in which the guard fails and nothing is
  extracted or printed.
\<close>

definition abstract_regions :: "string list \<Rightarrow> string list \<Rightarrow> (string \<times> string) option" where
  "abstract_regions docling_lines precision_lines =
     (let abs_start_d = find_section docling_lines ''## Abstract'';
          abs_start_p = find_section precision_lines ''## Abstract'';
          intro_start_d = find_section docling_lines ''## 1 Introduction'';
          intro_start_p = find_section precision_lines ''## 1 Introduction''
      in if abs_start_d \<noteq> 0 \<and> abs_start_p \<noteq> 0 \<and> intro_start_d \<noteq> 0 \<and> intro_start_p \<noteq> 0
         then Some (concat (slice docling_lines abs_start_d intro_start_d),
                    concat (slice precision_lines abs_start_p intro_start_p))
         else None)"

definition abs_sim :: "string list \<Rightarrow> string list \<Rightarrow> (py_error + rat) option" where
  "abs_sim docling_lines precision_lines =
     (case abstract_regions docling_lines precision_lines of
        None \<Rightarrow> None
      | Some (abstract_d, abstract_p) \<Rightarrow> Some (percent (ratio abstract_d abstract_p)))"

definition total_sim :: "string list \<Rightarrow> string list \<Rightarrow> py_error + rat" where
  "total_sim docling_lines precision_lines =
     percent (ratio (concat docling_lines) (concat precision_lines))"

subsection \<open>\<^verbatim>\<open>unified_diff\<close> and the issues of \<^verbatim>\<open>detailed_diff.py\<close>\<close>

text \<open>
  \<^verbatim>\<open>get_grouped_opcodes(n)\<close>: the first and the last opcode are trimmed to \<open>n\<close> lines
  of context when they are equal runs, and a new group starts inside every equal run
  longer than \<open>2n\<close>. Python's \<^verbatim>\<open>max(i1, i2-n)\<close> is the same number when \<^verbatim>\<open>i2-n\<close> is
  cut off at 0.
\<close>

definition fix_first :: "nat \<Rightarrow> opcode list \<Rightarrow> opcode list" where
  "fix_first n codes =
     (case codes of
        (Equal, i1, i2, j1, j2) # rest \<Rightarrow> (Equal, max i1 (i2 - n), i2, max j1 (j2 - n), j2) # rest
      | _ \<Rightarrow> codes)"

definition fix_last :: "nat \<Rightarrow> opcode list \<Rightarrow> opcode list" where
  "fix_last n codes =
     (if codes \<noteq> [] \<and> fst (last codes) = Equal
      then butlast codes
           @ [case last codes of (tag, i1, i2, j1, j2) \<Rightarrow>
                (tag, i1, min i2 (i1 + n), j1, min j2 (j1 + n))]
      else codes)"

fun group_loop :: "nat \<Rightarrow> opcode list \<Rightarrow> opcode list \<Rightarrow> opcode list list" where
  "group_loop n [] grp =
     (if grp \<noteq> [] \<and> \<not> (length grp = 1 \<and> fst (hd grp) = Equal) then [grp] else [])"
| "group_loop n ((tag, i1, i2, j1, j2) # codes) grp =
     (if tag = Equal \<and> i2 - i1 > n + n
      then (grp @ [(tag, i1, min i2 (i1 + n), j1, min j2 (j1 + n))])
           # group_loop n codes [(tag, max i1 (i2 - n), i2, max j1 (j2 - n), j2)]
      else group_loop n codes (grp @ [(tag, i1, i2, j1, j2)]))"

definition get_grouped_opcodes :: "'a list \<Rightarrow> 'a list \<Rightarrow> nat \<Rightarrow> opcode list list" where
  "get_grouped_opcodes a b n =
     (let codes = get_opcodes a b;
          codes = (if codes = [] then [(Equal, 0, 1, 0, 1)] else codes)
      in group_loop n (fix_last n (fix_first n codes)) [])"

text \<open>\<^verbatim>\<open>'{}'.format(n)\<close> for a natural number, and \<^verbatim>\<open>_format_range_unified\<close>.\<close>

function str_nat :: "nat \<Rightarrow> string" where
  "str_nat n =
     (if n < 10 then [char_of (48 + n)] else str_nat (n div 10) @ [char_of (48 + n mod 10)])"
  by pat_completeness auto
termination
  by (relation "measure id") auto

declare str_nat.simps [simp del]

definition format_range_unified :: "nat \<Rightarrow> nat \<Rightarrow> string" where
  "format_range_unified start stop =
     (let beginning = start + 1; len = stop - start
      in if len = 1 then str_nat beginning
         else if len = 0 then str_nat (beginning - 1) @ '','' @ str_nat len
         else str_nat beginning @ '','' @ str_nat len)"

text \<open>
  The lines one opcode contributes, the lines of one group with its \<^verbatim>\<open>@@\<close> header, and
  \<^verbatim>\<open>unified_diff\<close> with empty file dates. A group is never empty.
\<close>

definition opcode_lines :: "string list \<Rightarrow> string list \<Rightarrow> opcode \<Rightarrow> string list" where
  "opcode_lines a b = (\<lambda>(tag, i1, i2, j1, j2).
     if tag = Equal then map (\<lambda>line. CHR '' '' # line) (slice a i1 i2)
     else (if tag = Replace \<or> tag = Delete
           then map (\<lambda>line. CHR ''-'' # line) (slice a i1 i2) else [])
          @ (if tag = Replace \<or> tag = Insert
             then map (\<lambda>line. CHR ''+'' # line) (slice b j1 j2) else []))"

definition group_lines :: "string list \<Rightarrow> string list \<Rightarrow> string \<Rightarrow> opcode list \<Rightarrow> string list" where
  "group_lines a b lineterm grp =
     (case (hd grp, last grp) of
        ((tag1, i1, i2, j1, j2), (tag2, k1, k2, l1, l2)) \<Rightarrow>
          (''@@ -'' @ format_range_unified i1 k2 @ '' +'' @ format_range_unified j1 l2
             @ '' @@'' @ lineterm)
          # concat (map (opcode_lines a b) grp))"

definition unified_diff ::
  "string list \<Rightarrow> string list \<Rightarrow> string \<Rightarrow> string \<Rightarrow> nat \<Rightarrow> string \<Rightarrow> string list" where
  "unified_diff a b fromfile tofile n lineterm =
     (case get_grouped_opcodes a b n of
        [] \<Rightarrow> []
      | groups \<Rightarrow>
          [''--- '' @ fromfile @ lineterm, ''+++ '' @ tofile @ lineterm]
          @ concat (map (group_lines a b lineterm) groups))"

text \<open>
  \<^verbatim>\<open>str.strip()\<close> removes white space at both ends; among the first 256 code points
  these are the characters below.
\<close>

definition isspace :: "char \<Rightarrow> bool" where
  "isspace c = (of_char c \<in> {9, 10, 11, 12, 13, 28, 29, 30, 31, 32, 133, 160 :: nat})"

definition strip :: "string \<Rightarrow> string" where
  "strip s = rev (dropWhile isspace (rev (dropWhile isspace s)))"

text \<open>Lines 15 to 27 of \<^verbatim>\<open>detailed_diff.py\<close>: the diff of the first 100 lines, and the
  issues read off its first 200 lines.\<close>

fun collect_issues :: "string list \<Rightarrow> issue list" where
  "collect_issues [] = []"
| "collect_issues (line # rest) =
     (if startswith line ''---'' \<or> startswith line ''+++'' \<or> startswith line ''@@''
      then collect_issues rest
      else if startswith line ''-'' then (Missing, strip (drop 1 line)) # collect_issues rest
      else if startswith line ''+'' then (Extra, strip (drop 1 line)) # collect_issues rest
      else collect_issues rest)"

definition diff_first_100 :: "string list \<Rightarrow> string list \<Rightarrow> string list" where
  "diff_first_100 docling_lines precision_lines =
     unified_diff (take 100 docling_lines) (take 100 precision_lines)
       ''docling'' ''precision'' 3 ''''"

definition issues_of :: "string list \<Rightarrow> string list \<Rightarrow> issue list" where
  "issues_of docling_lines precision_lines =
     collect_issues (take 200 (diff_first_100 docling_lines precision_lines))"



subsection \<open>The matcher object and its caches\<close>

text \<open>
  A \<^verbatim>\<open>SequenceMatcher\<close> object keeps the two sequences and caches the results of
  \<^verbatim>\<open>get_matching_blocks\<close> and \<^verbatim>\<open>get_opcodes\<close> in \<^verbatim>\<open>self.matching_blocks\<close> and
  \<^verbatim>\<open>self.opcodes\<close>; these caches are the only state a comparison writes. The methods
  take the object and return their result with the updated object.
\<close>

record 'a sequence_matcher =
  seq_a :: "'a list"
  seq_b :: "'a list"
  cached_blocks :: "match list option"
  cached_opcodes :: "opcode list option"

definition SequenceMatcher :: "'a list \<Rightarrow> 'a list \<Rightarrow> 'a sequence_matcher" where
  "SequenceMatcher a b = \<lparr>seq_a = a, seq_b = b, cached_blocks = None, cached_opcodes = None\<rparr>"

definition get_matching_blocks_m :: "'a sequence_matcher \<Rightarrow> match list \<times> 'a sequence_matcher" where
  "get_matching_blocks_m s =
     (case cached_blocks s of
        Some m \<Rightarrow> (m, s)
      | None \<Rightarrow>
          (let m = get_matching_blocks (seq_a s) (seq_b s)
           in (m, s\<lparr>cached_blocks := Some m\<rparr>)))"

definition get_opcodes_m :: "'a sequence_matcher \<Rightarrow> opcode list \<times> 'a sequence_matcher" where
  "get_opcodes_m s =
     (case cached_opcodes s of
        Some answer \<Rightarrow> (answer, s)
      | None \<Rightarrow>
          (case get_matching_blocks_m s of (m, s') \<Rightarrow>
             (let answer = opcodes_loop 0 0 m
              in (answer, s'\<lparr>cached_opcodes := Some answer\<rparr>))))"

definition ratio_m :: "'a sequence_matcher \<Rightarrow> (py_error + rat) \<times> 'a sequence_matcher" where
  "ratio_m s =
     (case get_matching_blocks_m s of (m, s') \<Rightarrow>
        (calculate_ratio (sum_list (map (\<lambda>(i, j, k). k) m))
           (length (seq_a s') + length (seq_b s')), s'))"

text \<open>
  A matcher is coherent when each cache is empty or holds what the method computes from
  the two sequences. A new matcher is coherent, and every state a script can reach is.
\<close>

definition coherent :: "'a sequence_matcher \<Rightarrow> bool" where
  "coherent s =
     ((cached_blocks s = None \<or> cached_blocks s = Some (get_matching_blocks (seq_a s) (seq_b s)))
      \<and> (cached_opcodes s = None \<or> cached_opcodes s = Some (get_opcodes (seq_a s) (seq_b s))))"

text \<open>
  A list of opcodes tiles the rectangle from \<open>(i, j)\<close> to \<open>(ie, je)\<close> when every opcode
  starts where the one before it ends on both sides, none is empty, and the last one ends
  at \<open>(ie, je)\<close>; an insert covers no line of the first side, a delete no line of the
  second, an equal run as many lines on one side as on the other.
\<close>

definition shape_ok :: "opcode \<Rightarrow> bool" where
  "shape_ok = (\<lambda>(tag, i1, i2, j1, j2).
     case tag of
       Replace \<Rightarrow> i1 < i2 \<and> j1 < j2
     | Delete \<Rightarrow> i1 < i2 \<and> j1 = j2
     | Insert \<Rightarrow> i1 = i2 \<and> j1 < j2
     | Equal \<Rightarrow> i1 < i2 \<and> i2 - i1 = j2 - j1)"

fun tiles :: "nat \<Rightarrow> nat \<Rightarrow> opcode list \<Rightarrow> nat \<Rightarrow> nat \<Rightarrow> bool" where
  "tiles i j [] ie je = (i = ie \<and> j = je)"
| "tiles i j ((tag, i1, i2, j1, j2) # ops) ie je =
     (i1 = i \<and> j1 = j \<and> i1 \<le> i2 \<and> j1 \<le> j2 \<and> shape_ok (tag, i1, i2, j1, j2)
      \<and> tiles i2 j2 ops ie je)"

section \<open>Facts about the string operations\<close>

lemma startswith_Nil [simp]: "startswith s [] = True"
  by (simp add: startswith_def)

lemma startswith_Nil_left [simp]: "startswith [] p = (p = [])"
  by (auto simp: startswith_def)

lemma startswith_Cons [simp]:
  "startswith (c # s) (d # p) = (c = d \<and> startswith s p)"
  by (auto simp: startswith_def)

lemma count_if_Nil [simp]: "count_if cond [] = 0"
  by (simp add: count_if_def)

lemma count_if_Cons [simp]:
  "count_if cond (x # xs) = (if cond x then Suc (count_if cond xs) else count_if cond xs)"
  by (simp add: count_if_def)

lemma count_if_append [simp]:
  "count_if cond (xs @ ys) = count_if cond xs + count_if cond ys"
  by (simp add: count_if_def)

section \<open>The wrong-joins counter\<close>

lemma count_if_incl_excl:
  "count_if (\<lambda>x. p x \<or> q x) xs + count_if (\<lambda>x. p x \<and> q x) xs
     = count_if p xs + count_if q xs"
  by (induction xs) auto

text \<open>
  C10, as stated: the wrong-joins count is the number of extra issues containing
  \<^verbatim>\<open>Abstract\<close> plus the number of issues containing \<^verbatim>\<open>Introduction\<close>. The sum counts
  an extra line that contains both words twice; the code counts it once.
\<close>

theorem wrong_joins_sum_counterexample:
  "wrong_joins [(Extra, ''## Abstract 1 Introduction'')] = 1 \<and>
   count_if (\<lambda>(t, content). t = Extra \<and> py_in ''Abstract'' content)
       [(Extra, ''## Abstract 1 Introduction'')]
   + count_if (\<lambda>(t, content). py_in ''Introduction'' content)
       [(Extra, ''## Abstract 1 Introduction'')] = 2"
  by (simp add: wrong_joins_def is_wrong_join_def)

text \<open>
  C10, amended: the wrong-joins count is the number of extra issues containing
  \<^verbatim>\<open>Abstract\<close> plus the number of issues of either kind containing \<^verbatim>\<open>Introduction\<close>,
  less the number of extra issues containing both (each issue counts once); and any
  issue whose content contains \<^verbatim>\<open>Introduction\<close>, a missing line included, increments
  the count by one.
\<close>

theorem wrong_joins_counts:
  "wrong_joins issues
     + count_if (\<lambda>(t, content). (t = Extra \<and> py_in ''Abstract'' content)
                                \<and> py_in ''Introduction'' content) issues
   = count_if (\<lambda>(t, content). t = Extra \<and> py_in ''Abstract'' content) issues
     + count_if (\<lambda>(t, content). py_in ''Introduction'' content) issues
   \<and> (py_in ''Introduction'' content
        \<longrightarrow> wrong_joins (issues @ [(Missing, content)]) = wrong_joins issues + 1)"
proof -
  let ?p = "\<lambda>(t, content). t = Extra \<and> py_in ''Abstract'' content"
  let ?q = "\<lambda>(t::issue_kind, content). py_in ''Introduction'' content"
  have w: "is_wrong_join = (\<lambda>x. ?p x \<or> ?q x)"
    by (auto simp: is_wrong_join_def fun_eq_iff)
  have b: "(\<lambda>(t, content). (t = Extra \<and> py_in ''Abstract'' content)
              \<and> py_in ''Introduction'' content) = (\<lambda>x. ?p x \<and> ?q x)"
    by (auto simp: fun_eq_iff)
  have "count_if (\<lambda>x. ?p x \<or> ?q x) issues + count_if (\<lambda>x. ?p x \<and> ?q x) issues
          = count_if ?p issues + count_if ?q issues"
    by (rule count_if_incl_excl)
  then have first: "wrong_joins issues
     + count_if (\<lambda>(t, content). (t = Extra \<and> py_in ''Abstract'' content)
                                \<and> py_in ''Introduction'' content) issues
     = count_if ?p issues + count_if ?q issues"
    unfolding wrong_joins_def w b .
  have second: "py_in ''Introduction'' content
        \<longrightarrow> wrong_joins (issues @ [(Missing, content)]) = wrong_joins issues + 1"
    by (simp add: wrong_joins_def is_wrong_join_def)
  from first second show ?thesis by blast
qed

theorem wrong_joins_counts_witness:
  "py_in ''Introduction'' ''## 1 Introduction''
   \<and> wrong_joins ([] @ [(Missing, ''## 1 Introduction'')]) = wrong_joins [] + 1"
  using wrong_joins_counts [of "[]" "''## 1 Introduction''"] by simp

section \<open>Bucket membership of one issue\<close>

lemma sum_buckets_hit:
  "missing_breaks issues + extra_breaks issues + missing_headers issues + wrong_joins issues
     = sum_list (map buckets_hit issues)"
  by (induction issues)
     (simp_all add: missing_breaks_def extra_breaks_def missing_headers_def wrong_joins_def
        buckets_hit_def)

lemma buckets_hit_blank: "buckets_hit (t, []) = 1"
  by (cases t)
     (simp_all add: buckets_hit_def is_missing_break_def is_extra_break_def
        is_missing_header_def is_wrong_join_def)

lemma buckets_hit_le_2: "buckets_hit x \<le> 2"
proof (cases x)
  case (Pair t content)
  show ?thesis
  proof (cases "content = []")
    case True
    with Pair show ?thesis by (simp add: buckets_hit_blank)
  next
    case False
    with Pair show ?thesis
      by (simp add: buckets_hit_def is_missing_break_def is_extra_break_def)
  qed
qed

text \<open>
  C3, as stated: every issue lands in exactly one bucket, none in two and none in no
  bucket. A missing \<^verbatim>\<open>## 1 Introduction\<close> line increments both the missing-headers and
  the wrong-joins counter, and a missing line of body text increments no counter.
\<close>

theorem one_bucket_counterexample:
  "buckets_hit (Missing, ''## 1 Introduction'') = 2 \<and> buckets_hit (Missing, ''Body text.'') = 0"
  by (simp add: buckets_hit_def is_missing_break_def is_extra_break_def
      is_missing_header_def is_wrong_join_def)

text \<open>
  C3, amended: the four counters (missing blank lines, extra blank lines, missing
  \<^verbatim>\<open>##\<close> headers, wrong joins) are evaluated independently of each other on every
  issue; an issue with empty content increments exactly one of them, any issue increments
  at most two, and the four totals add up to the number of increments over all issues.
\<close>

theorem buckets_hit_independent:
  "buckets_hit x \<le> 2
   \<and> (snd x = [] \<longrightarrow> buckets_hit x = 1)
   \<and> missing_breaks issues + extra_breaks issues + missing_headers issues + wrong_joins issues
       = sum_list (map buckets_hit issues)"
proof -
  have "snd x = [] \<longrightarrow> buckets_hit x = 1"
    by (cases x) (simp add: buckets_hit_blank)
  with buckets_hit_le_2 [of x] sum_buckets_hit [of issues] show ?thesis by blast
qed

theorem buckets_hit_independent_witness:
  "snd (Extra, '''') = [] \<and> buckets_hit (Extra, '''') = 1"
  using buckets_hit_independent [of "(Extra, '''')" "[]"] by simp

section \<open>The longest match lies inside its rectangle and is a match\<close>

lemma runs_ok_zero: "runs_ok a b alo blo bhi n (\<lambda>_. 0)"
  by (simp add: runs_ok_def)

lemma b2j_get_elt: "j \<in> set (b2j_get b x) \<Longrightarrow> b ! j = x \<and> j < length b"
  by (auto simp: b2j_get_def chain_indices_def split: if_splits)

lemma runs_ok_step:
  assumes prev: "runs_ok a b alo blo bhi i j2len"
    and cur: "runs_ok a b alo blo bhi (Suc i) nj"
    and i: "alo \<le> i" and j: "blo \<le> j" "j < bhi" and eq: "b ! j = a ! i"
    and k: "k = (if j = 0 then 0 else j2len (j - 1)) + 1"
  shows "runs_ok a b alo blo bhi (Suc i) (nj(j := k))"
    and "k \<le> Suc i - alo" and "k \<le> Suc j - blo"
    and "\<forall>t<k. a ! (i - t) = b ! (j - t)"
proof -
  have p1: "j2len (j - 1) \<le> i - alo" using prev by (simp add: runs_ok_def)
  have p2: "0 < j \<Longrightarrow> 0 < j2len (j - 1) \<Longrightarrow> blo \<le> j - 1" using prev by (simp add: runs_ok_def)
  have p3: "j2len (j - 1) \<le> j - 1 + 1 - blo" using prev by (simp add: runs_ok_def)
  have p4: "\<forall>t < j2len (j - 1). a ! (i - 1 - t) = b ! (j - 1 - t)"
    using prev by (simp add: runs_ok_def)
  show k1: "k \<le> Suc i - alo" using p1 i k by (auto split: if_splits)
  show k2: "k \<le> Suc j - blo"
  proof (cases "j = 0 \<or> j2len (j - 1) = 0")
    case True
    then show ?thesis using k j by auto
  next
    case False
    then have "blo \<le> j - 1" using p2 by simp
    then show ?thesis using p3 k False by auto
  qed
  show k3: "\<forall>t<k. a ! (i - t) = b ! (j - t)"
  proof (intro allI impI)
    fix t assume t: "t < k"
    show "a ! (i - t) = b ! (j - t)"
    proof (cases t)
      case 0
      then show ?thesis using eq by simp
    next
      case (Suc u)
      then have j0: "j \<noteq> 0" and u: "u < j2len (j - 1)" using t k by (auto split: if_splits)
      have "a ! (i - 1 - u) = b ! (j - 1 - u)" using p4 u by simp
      then show ?thesis using Suc by simp
    qed
  qed
  show "runs_ok a b alo blo bhi (Suc i) (nj(j := k))"
    unfolding runs_ok_def
  proof (intro allI)
    fix j'
    show "(nj(j := k)) j' \<le> Suc i - alo \<and> (nj(j := k)) j' \<le> j' + 1 - blo
          \<and> (0 < (nj(j := k)) j' \<longrightarrow> blo \<le> j' \<and> j' < bhi)
          \<and> (\<forall>t<(nj(j := k)) j'. a ! (Suc i - 1 - t) = b ! (j' - t))"
    proof (cases "j' = j")
      case True
      then show ?thesis using k1 k2 k3 j by simp
    next
      case False
      then show ?thesis using cur by (simp add: runs_ok_def)
    qed
  qed
qed

lemma chain_loop_ok:
  assumes "runs_ok a b alo blo bhi i j2len" and "alo \<le> i" and "i < ahi"
    and "\<forall>j \<in> set js. b ! j = a ! i"
    and "runs_ok a b alo blo bhi (Suc i) nj" and "best_ok a b alo ahi blo bhi best"
  shows "runs_ok a b alo blo bhi (Suc i) (fst (chain_loop i blo bhi j2len js (nj, best)))
       \<and> best_ok a b alo ahi blo bhi (snd (chain_loop i blo bhi j2len js (nj, best)))"
  using assms
proof (induction js arbitrary: nj best)
  case Nil
  then show ?case by simp
next
  case (Cons j js)
  obtain besti bestj bestsize where best: "best = (besti, bestj, bestsize)"
    by (cases best) auto
  show ?case
  proof (cases "j < blo")
    case True
    then show ?thesis using Cons best by simp
  next
    case lo: False
    show ?thesis
    proof (cases "j \<ge> bhi")
      case True
      then show ?thesis using Cons.prems lo best by simp
    next
      case hi: False
      define k where "k = (if j = 0 then 0 else j2len (j - 1)) + 1"
      have jb: "blo \<le> j" "j < bhi" using lo hi by simp_all
      have eq: "b ! j = a ! i" using Cons.prems(4) by simp
      note st = runs_ok_step [OF Cons.prems(1) Cons.prems(5) Cons.prems(2) jb eq k_def]
      define best' where
        "best' = (if k > bestsize then (i + 1 - k, j + 1 - k, k) else (besti, bestj, bestsize))"
      have bo: "best_ok a b alo ahi blo bhi best'"
      proof (cases "k > bestsize")
        case False
        then show ?thesis using Cons.prems(6) best by (simp add: best'_def)
      next
        case True
        have m: "\<forall>t<k. a ! (i + 1 - k + t) = b ! (j + 1 - k + t)"
        proof (intro allI impI)
          fix t assume t: "t < k"
          then have "k - 1 - t < k" by simp
          with st(4) have "a ! (i - (k - 1 - t)) = b ! (j - (k - 1 - t))" by blast
          moreover have "i - (k - 1 - t) = i + 1 - k + t" using t st(2) by arith
          moreover have "j - (k - 1 - t) = j + 1 - k + t" using t st(3) by arith
          ultimately show "a ! (i + 1 - k + t) = b ! (j + 1 - k + t)" by (simp only:)
        qed
        have lo': "alo \<le> i + 1 - k" using st(2) Cons.prems(2) by arith
        have lo'': "blo \<le> j + 1 - k" using st(3) jb(1) by arith
        have hi': "i + 1 - k + k \<le> ahi" using st(2) Cons.prems(3) by arith
        have hi'': "j + 1 - k + k \<le> bhi" using st(3) jb(2) by arith
        have kz: "k \<noteq> 0" using True by simp
        have "best_ok a b alo ahi blo bhi (i + 1 - k, j + 1 - k, k)"
          unfolding best_ok_def using lo' lo'' hi' hi'' kz m by simp
        then show ?thesis using True by (simp add: best'_def)
      qed
      have step: "chain_loop i blo bhi j2len (j # js) (nj, best)
                  = chain_loop i blo bhi j2len js (nj(j := k), best')"
        using lo hi best by (simp add: k_def best'_def Let_def)
      have "\<forall>j \<in> set js. b ! j = a ! i" using Cons.prems(4) by simp
      from Cons.IH [OF Cons.prems(1) Cons.prems(2) Cons.prems(3) this st(1) bo]
      show ?thesis unfolding step .
    qed
  qed
qed

lemma row_loop_ok:
  assumes "runs_ok a b alo blo bhi m j2len" and "alo \<le> m"
    and "best_ok a b alo ahi blo bhi best"
  shows "best_ok a b alo ahi blo bhi (snd (row_loop a b blo bhi [m..<ahi] (j2len, best)))"
  using assms
proof (induction "ahi - m" arbitrary: m j2len best)
  case 0
  then show ?case by simp
next
  case (Suc d)
  then have lt: "m < ahi" by simp
  then have u: "[m..<ahi] = m # [Suc m..<ahi]" by (simp add: upt_rec)
  let ?st = "chain_loop m blo bhi j2len (b2j_get b (a ! m)) (\<lambda>_. 0, best)"
  have el: "\<forall>j \<in> set (b2j_get b (a ! m)). b ! j = a ! m"
    using b2j_get_elt by fast
  have c: "runs_ok a b alo blo bhi (Suc m) (fst ?st) \<and> best_ok a b alo ahi blo bhi (snd ?st)"
    by (rule chain_loop_ok [OF Suc.prems(1) Suc.prems(2) lt el runs_ok_zero Suc.prems(3)])
  have d: "d = ahi - Suc m" using Suc.hyps(2) by simp
  have le: "alo \<le> Suc m" using Suc.prems(2) by simp
  have "best_ok a b alo ahi blo bhi
          (snd (row_loop a b blo bhi [Suc m..<ahi] (fst ?st, snd ?st)))"
    by (rule Suc.hyps(1) [OF d conjunct1 [OF c] le conjunct2 [OF c]])
  then show ?case unfolding u by simp
qed

lemma extend_back_ok:
  "best_ok a b alo ahi blo bhi best \<Longrightarrow>
   best_ok a b alo ahi blo bhi (extend_back a b alo blo junk best)"
proof (induction a b alo blo junk best rule: extend_back.induct)
  case (1 a b alo blo junk besti bestj bestsize)
  show ?case
  proof (cases "besti > alo \<and> bestj > blo \<and> isbjunk (b ! (bestj - 1)) = junk
         \<and> a ! (besti - 1) = b ! (bestj - 1)")
    case False
    have "extend_back a b alo blo junk (besti, bestj, bestsize) = (besti, bestj, bestsize)"
      using False by (subst extend_back.simps) auto
    then show ?thesis using "1.prems" by simp
  next
    case True
    have old: "\<forall>t < bestsize. a ! (besti + t) = b ! (bestj + t)"
      using "1.prems" by (simp add: best_ok_def)
    have m: "\<forall>t < bestsize + 1. a ! (besti - 1 + t) = b ! (bestj - 1 + t)"
    proof (intro allI impI)
      fix t assume t: "t < bestsize + 1"
      show "a ! (besti - 1 + t) = b ! (bestj - 1 + t)"
      proof (cases t)
        case 0
        then show ?thesis using True by simp
      next
        case (Suc u)
        then have "a ! (besti + u) = b ! (bestj + u)" using old t by simp
        moreover have "besti - 1 + t = besti + u" "bestj - 1 + t = bestj + u"
          using Suc True by simp_all
        ultimately show ?thesis by simp
      qed
    qed
    have nz: "bestsize \<noteq> 0"
    proof
      assume "bestsize = 0"
      then have "besti = alo" using "1.prems" by (simp add: best_ok_def)
      then show False using True by simp
    qed
    then have hi: "besti - 1 + (bestsize + 1) \<le> ahi \<and> bestj - 1 + (bestsize + 1) \<le> bhi"
      using True "1.prems" by (simp add: best_ok_def)
    have lo: "alo \<le> besti - 1 \<and> blo \<le> bestj - 1" using True by auto
    have "best_ok a b alo ahi blo bhi (besti - 1, bestj - 1, bestsize + 1)"
      unfolding best_ok_def using lo hi m by simp
    from "1.IH" [OF True this] have
      "best_ok a b alo ahi blo bhi
         (extend_back a b alo blo junk (besti - 1, bestj - 1, bestsize + 1))" .
    moreover have "extend_back a b alo blo junk (besti, bestj, bestsize)
        = extend_back a b alo blo junk (besti - 1, bestj - 1, bestsize + 1)"
      using True by (subst extend_back.simps) simp
    ultimately show ?thesis by simp
  qed
qed

lemma extend_fwd_ok:
  "best_ok a b alo ahi blo bhi best \<Longrightarrow>
   best_ok a b alo ahi blo bhi (extend_fwd a b ahi bhi junk best)"
proof (induction a b ahi bhi junk best rule: extend_fwd.induct)
  case (1 a b ahi bhi junk besti bestj bestsize)
  show ?case
  proof (cases "besti + bestsize < ahi \<and> bestj + bestsize < bhi
         \<and> isbjunk (b ! (bestj + bestsize)) = junk
         \<and> a ! (besti + bestsize) = b ! (bestj + bestsize)")
    case False
    have "extend_fwd a b ahi bhi junk (besti, bestj, bestsize) = (besti, bestj, bestsize)"
      using False by (subst extend_fwd.simps) auto
    then show ?thesis using "1.prems" by simp
  next
    case True
    have old: "\<forall>t < bestsize. a ! (besti + t) = b ! (bestj + t)"
      using "1.prems" by (simp add: best_ok_def)
    have m: "\<forall>t < bestsize + 1. a ! (besti + t) = b ! (bestj + t)"
    proof (intro allI impI)
      fix t assume t: "t < bestsize + 1"
      show "a ! (besti + t) = b ! (bestj + t)"
      proof (cases "t = bestsize")
        case True
        then show ?thesis using \<open>besti + bestsize < ahi \<and> _\<close> by simp
      next
        case False
        then show ?thesis using old t by simp
      qed
    qed
    have lo: "alo \<le> besti \<and> blo \<le> bestj" using "1.prems" by (simp add: best_ok_def)
    have "best_ok a b alo ahi blo bhi (besti, bestj, bestsize + 1)"
      unfolding best_ok_def using lo True m by simp
    from "1.IH" [OF True this] have
      "best_ok a b alo ahi blo bhi (extend_fwd a b ahi bhi junk (besti, bestj, bestsize + 1))" .
    moreover have "extend_fwd a b ahi bhi junk (besti, bestj, bestsize)
        = extend_fwd a b ahi bhi junk (besti, bestj, bestsize + 1)"
      using True by (subst extend_fwd.simps) simp
    ultimately show ?thesis by simp
  qed
qed

lemma best_ok_init: "best_ok a b alo ahi blo bhi (alo, blo, 0)"
  by (simp add: best_ok_def)

lemma find_longest_match_ok:
  "best_ok a b alo ahi blo bhi (find_longest_match a b alo ahi blo bhi)"
  unfolding find_longest_match_def
  by (intro extend_fwd_ok extend_back_ok row_loop_ok runs_ok_zero best_ok_init order_refl)

lemma find_longest_match_bounds:
  assumes "find_longest_match a b alo ahi blo bhi = (i, j, k)" and "k \<noteq> 0"
  shows "alo \<le> i" "blo \<le> j" "i + k \<le> ahi" "j + k \<le> bhi"
    and "\<forall>t<k. a ! (i + t) = b ! (j + t)"
  using find_longest_match_ok [of a b alo ahi blo bhi] assms
  by (simp_all add: best_ok_def)

lemma find_longest_match_shrinks:
  "(i, j, k) = find_longest_match a b alo ahi blo bhi \<Longrightarrow> 0 < k \<Longrightarrow>
   alo \<le> i \<and> i + k \<le> ahi"
  using find_longest_match_bounds [of a b alo ahi blo bhi i j k] by simp

termination mb_loop
proof (relation "measure (\<lambda>(a, b, queue, blocks).
          sum_list (map (\<lambda>(alo, ahi, blo, bhi). 2 * (ahi - alo) + 1) queue))", goal_cases)
  case 1
  show ?case by simp
next
  case (2 a b alo ahi blo bhi queue matching_blocks x y xa ya)
  then have f: "(x, xa, ya) = find_longest_match a b alo ahi blo bhi" and k: "0 < ya"
    by simp_all
  from find_longest_match_shrinks [OF f k] k show ?case by auto
next
  case (3 a b alo ahi blo bhi queue matching_blocks x y xa ya)
  then show ?case by simp
qed

section \<open>Matching blocks are aligned\<close>

termination blocks_rec
proof (relation "measure (\<lambda>(a, b, alo, ahi, blo, bhi). ahi - alo)", goal_cases)
  case 1
  show ?case by simp
next
  case (2 a b alo ahi blo bhi x y xa ya)
  then have f: "(x, xa, ya) = find_longest_match a b alo ahi blo bhi" and k: "0 < ya"
    by simp_all
  from find_longest_match_shrinks [OF f k] k 2 show ?case by auto
next
  case (3 a b alo ahi blo bhi x y xa ya)
  then have f: "(x, xa, ya) = find_longest_match a b alo ahi blo bhi" and k: "0 < ya"
    by simp_all
  from find_longest_match_shrinks [OF f k] k 3 show ?case by auto
qed

declare blocks_rec.simps [simp del] mb_loop.simps(2) [simp del]

lemma sizes_simps [simp]:
  "sizes [] = 0" "sizes ((i, j, k) # xs) = k + sizes xs" "sizes (xs @ ys) = sizes xs + sizes ys"
  by (simp_all add: sizes_def)

lemma mb_loop_mset:
  "mset (mb_loop a b queue acc) = mset acc + (\<Sum>r\<leftarrow>queue. mset (rect_blocks a b r))"
proof (induction a b queue acc rule: mb_loop.induct)
  case (1 a b matching_blocks)
  show ?case by simp
next
  case (2 a b alo ahi blo bhi queue matching_blocks)
  obtain i j k where f: "find_longest_match a b alo ahi blo bhi = (i, j, k)"
    by (cases "find_longest_match a b alo ahi blo bhi") auto
  have r: "rect_blocks a b (alo, ahi, blo, bhi) = blocks_rec a b alo ahi blo bhi"
    by (simp add: rect_blocks_def)
  show ?case
  proof (cases "k = 0")
    case True
    have "mset (mb_loop a b queue matching_blocks)
            = mset matching_blocks + (\<Sum>r\<leftarrow>queue. mset (rect_blocks a b r))"
      using "2.IH"(2) f True by simp
    moreover have "blocks_rec a b alo ahi blo bhi = []"
      using f True by (subst blocks_rec.simps) simp
    ultimately show ?thesis using f True r by (simp add: mb_loop.simps(2))
  next
    case False
    let ?right = "if i + k < ahi \<and> j + k < bhi then [(i + k, ahi, j + k, bhi)] else []"
    let ?left = "if alo < i \<and> blo < j then [(alo, i, blo, j)] else []"
    have ih: "mset (mb_loop a b (?right @ ?left @ queue) (matching_blocks @ [(i, j, k)]))
            = mset (matching_blocks @ [(i, j, k)])
              + (\<Sum>r\<leftarrow>?right @ ?left @ queue. mset (rect_blocks a b r))"
      using "2.IH"(1) f False by simp
    have br: "mset (blocks_rec a b alo ahi blo bhi)
        = (\<Sum>r\<leftarrow>?left. mset (rect_blocks a b r)) + {#(i, j, k)#}
          + (\<Sum>r\<leftarrow>?right. mset (rect_blocks a b r))"
      using f False by (subst blocks_rec.simps) (simp add: rect_blocks_def)
    have "mb_loop a b ((alo, ahi, blo, bhi) # queue) matching_blocks
        = mb_loop a b (?right @ ?left @ queue) (matching_blocks @ [(i, j, k)])"
      using f False by (simp add: mb_loop.simps(2))
    then show ?thesis using ih br r by (simp add: ac_simps)
  qed
qed

lemma aligned_start:
  "aligned a b i j xs ie je \<Longrightarrow> i' \<le> i \<Longrightarrow> j' \<le> j \<Longrightarrow> aligned a b i' j' xs ie je"
  by (cases xs) auto

lemma aligned_append:
  "aligned a b i j (xs @ ys) ie je
     = (\<exists>im jm. aligned a b i j xs im jm \<and> aligned a b im jm ys ie je)"
proof (induction xs arbitrary: i j)
  case Nil
  show ?case
  proof
    assume "aligned a b i j ([] @ ys) ie je"
    then have "aligned a b i j [] i j \<and> aligned a b i j ys ie je" by simp
    then show "\<exists>im jm. aligned a b i j [] im jm \<and> aligned a b im jm ys ie je" by blast
  next
    assume "\<exists>im jm. aligned a b i j [] im jm \<and> aligned a b im jm ys ie je"
    then obtain im jm where "i \<le> im" "j \<le> jm" "aligned a b im jm ys ie je" by auto
    then show "aligned a b i j ([] @ ys) ie je" using aligned_start by fastforce
  qed
next
  case (Cons x xs)
  obtain ai bj k where x: "x = (ai, bj, k)" by (cases x) auto
  show ?case unfolding x using Cons.IH [of "ai + k" "bj + k"] by auto
qed

lemma aligned_bounds:
  "aligned a b i j xs ie je \<Longrightarrow> i + sizes xs \<le> ie \<and> j + sizes xs \<le> je"
proof (induction xs arbitrary: i j)
  case Nil
  then show ?case by simp
next
  case (Cons x xs)
  obtain ai bj k where x: "x = (ai, bj, k)" by (cases x) auto
  from Cons.prems have "aligned a b (ai + k) (bj + k) xs ie je" and "i \<le> ai" "j \<le> bj"
    unfolding x by simp_all
  with Cons.IH [of "ai + k" "bj + k"] show ?case unfolding x by simp
qed

lemma aligned_lower:
  "aligned a b i j xs ie je \<Longrightarrow> (ai, bj, k) \<in> set xs \<Longrightarrow> i \<le> ai \<and> j \<le> bj"
proof (induction xs arbitrary: i j)
  case Nil
  then show ?case by simp
next
  case (Cons x xs)
  obtain ai' bj' k' where x: "x = (ai', bj', k')" by (cases x) auto
  show ?case
  proof (cases "(ai, bj, k) = x")
    case True
    then show ?thesis using Cons.prems(1) x by simp
  next
    case False
    then have "(ai, bj, k) \<in> set xs" using Cons.prems(2) by simp
    moreover have "aligned a b (ai' + k') (bj' + k') xs ie je" using Cons.prems(1) x by simp
    ultimately have "ai' + k' \<le> ai \<and> bj' + k' \<le> bj" using Cons.IH by blast
    moreover have "i \<le> ai'" "j \<le> bj'" using Cons.prems(1) x by simp_all
    ultimately show ?thesis by simp
  qed
qed

lemma aligned_sorted: "aligned a b i j xs ie je \<Longrightarrow> sorted xs"
proof (induction xs arbitrary: i j)
  case Nil
  show ?case by simp
next
  case (Cons x xs)
  obtain ai bj k where x: "x = (ai, bj, k)" by (cases x) auto
  have al: "aligned a b (ai + k) (bj + k) xs ie je" and k: "0 < k"
    using Cons.prems x by simp_all
  have "\<forall>y \<in> set xs. x \<le> y"
  proof
    fix y assume y: "y \<in> set xs"
    obtain ai' bj' k' where y': "y = (ai', bj', k')" by (cases y) auto
    from aligned_lower [OF al] y y' have "ai + k \<le> ai'" by blast
    then have "ai < ai'" using k by simp
    then show "x \<le> y" unfolding x y' by (simp add: less_eq_prod_def)
  qed
  with Cons.IH [OF al] show ?case by simp
qed


lemma blocks_rec_aligned:
  "alo \<le> ahi \<Longrightarrow> blo \<le> bhi \<Longrightarrow>
   aligned a b alo blo (blocks_rec a b alo ahi blo bhi) ahi bhi"
proof (induction a b alo ahi blo bhi rule: blocks_rec.induct)
  case (1 a b alo ahi blo bhi)
  obtain i j k where f: "find_longest_match a b alo ahi blo bhi = (i, j, k)"
    by (cases "find_longest_match a b alo ahi blo bhi") auto
  show ?case
  proof (cases "k = 0")
    case True
    have "blocks_rec a b alo ahi blo bhi = []"
      using f True by (subst blocks_rec.simps) simp
    then show ?thesis using "1.prems" by simp
  next
    case False
    note bd = find_longest_match_bounds [OF f False]
    define L where "L = (if alo < i \<and> blo < j then blocks_rec a b alo i blo j else [])"
    define R where
      "R = (if i + k < ahi \<and> j + k < bhi then blocks_rec a b (i + k) ahi (j + k) bhi else [])"
    have eq: "blocks_rec a b alo ahi blo bhi = L @ [(i, j, k)] @ R"
      using f False by (subst blocks_rec.simps) (simp add: L_def R_def)
    have l: "aligned a b alo blo L i j"
    proof (cases "alo < i \<and> blo < j")
      case True
      then have "aligned a b alo blo (blocks_rec a b alo i blo j) i j"
        using "1.IH"(1) f False by simp
      then show ?thesis using True by (simp add: L_def)
    next
      case False
      then show ?thesis using bd(1,2) by (auto simp: L_def)
    qed
    have r: "aligned a b (i + k) (j + k) R ahi bhi"
    proof (cases "i + k < ahi \<and> j + k < bhi")
      case True
      then have "aligned a b (i + k) (j + k) (blocks_rec a b (i + k) ahi (j + k) bhi) ahi bhi"
        using "1.IH"(2) f False by simp
      then show ?thesis using True by (simp add: R_def)
    next
      case False
      then show ?thesis using bd(3,4) by (auto simp: R_def)
    qed
    have "aligned a b i j ((i, j, k) # R) ahi bhi" using r bd(5) False by simp
    with l have "aligned a b alo blo (L @ (i, j, k) # R) ahi bhi"
      unfolding aligned_append by blast
    then show ?thesis unfolding eq by simp
  qed
qed

lemma sort_mb_loop:
  "sort (mb_loop a b [(0, length a, 0, length b)] []) = blocks_rec a b 0 (length a) 0 (length b)"
proof (rule properties_for_sort)
  show "mset (blocks_rec a b 0 (length a) 0 (length b))
          = mset (mb_loop a b [(0, length a, 0, length b)] [])"
    by (simp add: mb_loop_mset rect_blocks_def)
  show "sorted (blocks_rec a b 0 (length a) 0 (length b))"
    by (rule aligned_sorted [OF blocks_rec_aligned]) simp_all
qed

lemma collapse_sizes:
  "sizes (collapse (i1, j1, k1) rest acc) = sizes acc + k1 + sizes rest"
proof (induction rest arbitrary: i1 j1 k1 acc)
  case Nil
  show ?case by simp
next
  case (Cons x rest)
  obtain i2 j2 k2 where x: "x = (i2, j2, k2)" by (cases x) auto
  show ?case unfolding x by (simp add: Cons.IH)
qed

lemma aligned_merge:
  assumes "aligned a b im jm ((i1, j1, k1) # (i1 + k1, j1 + k1, k2) # rest) ie je"
  shows "aligned a b im jm ((i1, j1, k1 + k2) # rest) ie je"
proof -
  from assms have m1: "\<forall>t<k1. a ! (i1 + t) = b ! (j1 + t)"
    and m2: "\<forall>t<k2. a ! (i1 + k1 + t) = b ! (j1 + k1 + t)"
    and r: "aligned a b (i1 + k1 + k2) (j1 + k1 + k2) rest ie je"
    and lo: "im \<le> i1" "jm \<le> j1" "0 < k1"
    by simp_all
  have "\<forall>t<k1 + k2. a ! (i1 + t) = b ! (j1 + t)"
  proof (intro allI impI)
    fix t assume t: "t < k1 + k2"
    show "a ! (i1 + t) = b ! (j1 + t)"
    proof (cases "t < k1")
      case True
      then show ?thesis using m1 by simp
    next
      case False
      then have "t - k1 < k2" using t by simp
      with m2 have "a ! (i1 + k1 + (t - k1)) = b ! (j1 + k1 + (t - k1))" by blast
      then show ?thesis using False by simp
    qed
  qed
  then show ?thesis using r lo by (simp add: add.assoc)
qed

lemma collapse_aligned:
  "aligned a b i j (acc @ pending (i1, j1, k1) @ rest) ie je \<Longrightarrow>
   aligned a b i j (collapse (i1, j1, k1) rest acc) ie je"
proof (induction rest arbitrary: i1 j1 k1 acc)
  case Nil
  then show ?case by (simp add: pending_def split: if_splits)
next
  case (Cons x rest)
  obtain i2 j2 k2 where x: "x = (i2, j2, k2)" by (cases x) auto
  from Cons.prems obtain im jm where
    a1: "aligned a b i j acc im jm" and
    a2: "aligned a b im jm (pending (i1, j1, k1) @ (i2, j2, k2) # rest) ie je"
    unfolding aligned_append x by blast
  show ?case
  proof (cases "i1 + k1 = i2 \<and> j1 + k1 = j2")
    case True
    have "aligned a b im jm (pending (i1, j1, k1 + k2) @ rest) ie je"
    proof (cases "k1 = 0")
      case True
      with \<open>i1 + k1 = i2 \<and> j1 + k1 = j2\<close> a2 show ?thesis by (simp add: pending_def)
    next
      case False
      with True a2 have
        "aligned a b im jm ((i1, j1, k1) # (i1 + k1, j1 + k1, k2) # rest) ie je"
        by (simp add: pending_def)
      from aligned_merge [OF this] False show ?thesis by (simp add: pending_def)
    qed
    with a1 have "aligned a b i j (acc @ pending (i1, j1, k1 + k2) @ rest) ie je"
      unfolding aligned_append by blast
    from Cons.IH [OF this] True show ?thesis unfolding x by simp
  next
    case False
    have k2: "0 < k2" using a2 by (simp add: pending_def split: if_splits)
    have "aligned a b i j ((acc @ pending (i1, j1, k1)) @ pending (i2, j2, k2) @ rest) ie je"
      using Cons.prems k2 unfolding x by (simp add: pending_def)
    from Cons.IH [OF this] False show ?thesis unfolding x by (auto simp: pending_def)
  qed
qed

lemma get_matching_blocks_eq:
  "get_matching_blocks a b
     = collapse (0, 0, 0) (blocks_rec a b 0 (length a) 0 (length b)) []
       @ [(length a, length b, 0)]"
  by (simp add: get_matching_blocks_def sort_mb_loop)

lemma collapsed_aligned:
  "aligned a b 0 0 (collapse (0, 0, 0) (blocks_rec a b 0 (length a) 0 (length b)) [])
     (length a) (length b)"
proof (rule collapse_aligned)
  have "aligned a b 0 0 (blocks_rec a b 0 (length a) 0 (length b)) (length a) (length b)"
    by (rule blocks_rec_aligned) simp_all
  then show "aligned a b 0 0
      ([] @ pending (0, 0, 0) @ blocks_rec a b 0 (length a) 0 (length b)) (length a) (length b)"
    by (simp add: pending_def)
qed

lemma matches_eq: "matches a b = sizes (blocks_rec a b 0 (length a) 0 (length b))"
proof -
  have "matches a b = sizes (get_matching_blocks a b)"
    by (simp add: matches_def sizes_def)
  then show ?thesis by (simp add: get_matching_blocks_eq collapse_sizes)
qed

lemma matches_le: "matches a b \<le> length a \<and> matches a b \<le> length b"
proof -
  have "aligned a b 0 0 (blocks_rec a b 0 (length a) 0 (length b)) (length a) (length b)"
    by (rule blocks_rec_aligned) simp_all
  from aligned_bounds [OF this] show ?thesis by (simp add: matches_eq)
qed

lemma aligned_full:
  "aligned a b i j xs ie je \<Longrightarrow> i + sizes xs = ie \<Longrightarrow> j + sizes xs = je \<Longrightarrow>
   \<forall>t < sizes xs. a ! (i + t) = b ! (j + t)"
proof (induction xs arbitrary: i j)
  case Nil
  show ?case by simp
next
  case (Cons x xs)
  obtain ai bj k where x: "x = (ai, bj, k)" by (cases x) auto
  have al: "aligned a b (ai + k) (bj + k) xs ie je"
    and lo: "i \<le> ai" "j \<le> bj" and m: "\<forall>t<k. a ! (ai + t) = b ! (bj + t)"
    using Cons.prems(1) x by simp_all
  from aligned_bounds [OF al] have ub: "ai + k + sizes xs \<le> ie" "bj + k + sizes xs \<le> je"
    by simp_all
  have ai: "ai = i" using ub(1) lo(1) Cons.prems(2) x by simp
  have bj: "bj = j" using ub(2) lo(2) Cons.prems(3) x by simp
  have ih: "\<forall>t < sizes xs. a ! (i + k + t) = b ! (j + k + t)"
    using Cons.IH [OF al] Cons.prems(2,3) x ai bj by simp
  show ?case
  proof (intro allI impI)
    fix t assume t: "t < sizes (x # xs)"
    show "a ! (i + t) = b ! (j + t)"
    proof (cases "t < k")
      case True
      then show ?thesis using m ai bj by simp
    next
      case False
      then have "t - k < sizes xs" using t x by simp
      with ih have "a ! (i + k + (t - k)) = b ! (j + k + (t - k))" by blast
      then show ?thesis using False by simp
    qed
  qed
qed

lemma matches_full_eq:
  assumes "matches a b = length a" and "matches a b = length b"
  shows "a = b"
proof (rule nth_equalityI)
  show "length a = length b" using assms by simp
next
  fix t assume t: "t < length a"
  have al: "aligned a b 0 0 (blocks_rec a b 0 (length a) 0 (length b)) (length a) (length b)"
    by (rule blocks_rec_aligned) simp_all
  have "\<forall>t < sizes (blocks_rec a b 0 (length a) 0 (length b)). a ! (0 + t) = b ! (0 + t)"
    by (rule aligned_full [OF al]) (use assms in \<open>simp_all add: matches_eq\<close>)
  then show "a ! t = b ! t" using t assms(1) by (simp add: matches_eq)
qed

section \<open>The longest match of a sequence with itself\<close>

lemma dgs_Suc_np: "\<not> popular D (D ! m) \<Longrightarrow> dgs D (Suc m) = Suc (dgs D m)"
  by simp

lemma dgs_Suc_p: "popular D (D ! m) \<Longrightarrow> dgs D (Suc m) = 0"
  by simp

declare dgs.simps(2) [simp del]

lemma chain_indices_set: "set (chain_indices b x) = {j. j < length b \<and> b ! j = x}"
  by (auto simp: chain_indices_def)

lemma chain_indices_sorted: "sorted_wrt (<) (chain_indices b x)"
  unfolding chain_indices_def by (rule sorted_wrt_filter) simp

lemma chain_loop_diag:
  assumes "\<not> popular D (D ! i)"
    and "sorted_wrt (<) js" and "\<forall>j \<in> set js. j < n \<and> D ! j = D ! i"
    and "\<forall>j. pre j2len j \<le> dgs D j \<and> pre j2len j \<le> dgs D i" and "pre j2len i = dgs D i"
    and "\<forall>j. nj j \<le> dgs D (Suc j) \<and> nj j \<le> dgs D (Suc i)"
    and "bi = bj" and "\<forall>m \<le> i. dgs D m \<le> bs"
    and "i \<in> set js \<or> (nj i = dgs D (Suc i) \<and> dgs D (Suc i) \<le> bs)"
    and "chain_loop i 0 n j2len js (nj, bi, bj, bs) = (nj', bi', bj', bs')"
  shows "(\<forall>j. nj' j \<le> dgs D (Suc j) \<and> nj' j \<le> dgs D (Suc i)) \<and> nj' i = dgs D (Suc i)
         \<and> bi' = bj' \<and> (\<forall>m \<le> Suc i. dgs D m \<le> bs')"
  using assms(2,3,6,7,8,9,10)
proof (induction js arbitrary: nj bi bj bs)
  case Nil
  then have e: "nj' = nj" "bi' = bi" "bj' = bj" "bs' = bs" by simp_all
  from Nil have p: "nj i = dgs D (Suc i)" "dgs D (Suc i) \<le> bs" by simp_all
  have "\<forall>m \<le> Suc i. dgs D m \<le> bs"
  proof (intro allI impI)
    fix m assume "m \<le> Suc i"
    then show "dgs D m \<le> bs" using Nil.prems(5) p(2) by (cases "m = Suc i") auto
  qed
  then show ?case using Nil.prems(3,4) p(1) unfolding e by blast
next
  case (Cons j js)
  have jn: "j < n" and dj: "D ! j = D ! i" using Cons.prems(2) by simp_all
  define k where "k = pre j2len j + 1"
  have npj: "\<not> popular D (D ! j)" using assms(1) dj by simp
  have k1: "k \<le> dgs D (Suc j)" using assms(4) by (simp add: k_def dgs_Suc_np [OF npj])
  have k2: "k \<le> dgs D (Suc i)" using assms(4) by (simp add: k_def dgs_Suc_np [OF assms(1)])
  define nj2 where "nj2 = nj(j := k)"
  define best2 where "best2 = (if k > bs then (i + 1 - k, j + 1 - k, k) else (bi, bj, bs))"
  have step: "chain_loop i 0 n j2len (j # js) (nj, bi, bj, bs)
      = chain_loop i 0 n j2len js (nj2, best2)"
    using jn by (simp add: k_def pre_def nj2_def best2_def Let_def)
  obtain bi2 bj2 bs2 where b2: "best2 = (bi2, bj2, bs2)" by (cases best2) auto
  have q: "\<forall>j'. nj2 j' \<le> dgs D (Suc j') \<and> nj2 j' \<le> dgs D (Suc i)"
    using Cons.prems(3) k1 k2 by (simp add: nj2_def)
  have srt: "sorted_wrt (<) js" and els: "\<forall>j \<in> set js. j < n \<and> D ! j = D ! i"
    and gt: "\<forall>j' \<in> set js. j < j'"
    using Cons.prems(1,2) by simp_all
  have main: "bi2 = bj2 \<and> (\<forall>m \<le> i. dgs D m \<le> bs2)
      \<and> (i \<in> set js \<or> (nj2 i = dgs D (Suc i) \<and> dgs D (Suc i) \<le> bs2))"
  proof (cases "j < i")
    case True
    then have "Suc j \<le> i" by simp
    then have "dgs D (Suc j) \<le> bs" using Cons.prems(5) by blast
    then have "\<not> k > bs" using k1 by simp
    then have "best2 = (bi, bj, bs)" by (simp add: best2_def)
    with b2 have e: "bi2 = bi" "bj2 = bj" "bs2 = bs" by auto
    have "nj2 i = nj i" using True by (simp add: nj2_def)
    then show ?thesis using Cons.prems(4,5,6) True unfolding e by auto
  next
    case False
    show ?thesis
    proof (cases "j = i")
      case True
      have kk: "k = dgs D (Suc i)"
        using assms(5) True by (simp add: k_def dgs_Suc_np [OF assms(1)])
      have n2: "nj2 i = dgs D (Suc i)" using True kk by (simp add: nj2_def)
      show ?thesis
      proof (cases "k > bs")
        case True
        then have "best2 = (i + 1 - k, j + 1 - k, k)" by (simp add: best2_def)
        with b2 have e: "bi2 = i + 1 - k" "bj2 = j + 1 - k" "bs2 = k" by auto
        have "\<forall>m \<le> i. dgs D m \<le> k" using Cons.prems(5) True by fastforce
        then show ?thesis using \<open>j = i\<close> kk n2 unfolding e by simp
      next
        case False
        then have "best2 = (bi, bj, bs)" by (simp add: best2_def)
    with b2 have e: "bi2 = bi" "bj2 = bj" "bs2 = bs" by auto
        show ?thesis using Cons.prems(4,5) kk n2 False unfolding e by simp
      qed
    next
      case ne: False
      then have lt: "i < j" using False by simp
      then have "i \<notin> set (j # js)" using gt by auto
      then have p: "nj i = dgs D (Suc i)" "dgs D (Suc i) \<le> bs" using Cons.prems(6) by simp_all
      then have "\<not> k > bs" using k2 by simp
      then have "best2 = (bi, bj, bs)" by (simp add: best2_def)
    with b2 have e: "bi2 = bi" "bj2 = bj" "bs2 = bs" by auto
      have "nj2 i = nj i" using lt by (simp add: nj2_def)
      then show ?thesis using Cons.prems(4,5) p unfolding e by simp
    qed
  qed
  have res: "chain_loop i 0 n j2len js (nj2, bi2, bj2, bs2) = (nj', bi', bj', bs')"
    using Cons.prems(7) step b2 by simp
  show ?case
    by (rule Cons.IH [OF srt els q _ _ _ res]) (use main in simp_all)
qed


lemma row_loop_diag:
  assumes "n = length D" and "m \<le> n"
    and "\<forall>j. pre j2len j \<le> dgs D j \<and> pre j2len j \<le> dgs D m" and "pre j2len m = dgs D m"
    and "bi = bj" and "\<forall>m' \<le> m. dgs D m' \<le> bs"
    and "snd (row_loop D D 0 n [m..<n] (j2len, bi, bj, bs)) = (bi', bj', bs')"
  shows "bi' = bj'"
  using assms(2-)
proof (induction "n - m" arbitrary: m j2len bi bj bs)
  case 0
  then show ?case by simp
next
  case (Suc d)
  then have lt: "m < n" by simp
  then have u: "[m..<n] = m # [Suc m..<n]" by (simp add: upt_rec)
  obtain nj2 bi2 bj2 bs2 where
    c: "chain_loop m 0 n j2len (b2j_get D (D ! m)) (\<lambda>_. 0, bi, bj, bs) = (nj2, bi2, bj2, bs2)"
    by (cases "chain_loop m 0 n j2len (b2j_get D (D ! m)) (\<lambda>_. 0, bi, bj, bs)") auto
  have inv: "(\<forall>j. nj2 j \<le> dgs D (Suc j) \<and> nj2 j \<le> dgs D (Suc m)) \<and> nj2 m = dgs D (Suc m)
         \<and> bi2 = bj2 \<and> (\<forall>m' \<le> Suc m. dgs D m' \<le> bs2)"
  proof (cases "popular D (D ! m)")
    case True
    then have "b2j_get D (D ! m) = []" by (simp add: b2j_get_def)
    then have e: "nj2 = (\<lambda>_. 0)" "bi2 = bi" "bj2 = bj" "bs2 = bs" using c by simp_all
    have "\<forall>m' \<le> Suc m. dgs D m' \<le> bs"
    proof (intro allI impI)
      fix m' assume "m' \<le> Suc m"
      then show "dgs D m' \<le> bs"
        using Suc.prems(5) dgs_Suc_p [OF True] by (cases "m' = Suc m") auto
    qed
    then show ?thesis using Suc.prems(4) dgs_Suc_p [OF True] unfolding e by simp
  next
    case False
    then have g: "b2j_get D (D ! m) = chain_indices D (D ! m)" by (simp add: b2j_get_def)
    have mem: "m \<in> set (chain_indices D (D ! m))"
      using lt assms(1) by (simp add: chain_indices_set)
    have els: "\<forall>j \<in> set (chain_indices D (D ! m)). j < n \<and> D ! j = D ! m"
      using assms(1) by (simp add: chain_indices_set)
    show ?thesis
      by (rule chain_loop_diag [OF False chain_indices_sorted els Suc.prems(2,3) _
            Suc.prems(4,5) _ c [unfolded g]]) (use mem in simp_all)
  qed
  have p1: "\<forall>j. pre nj2 j \<le> dgs D j \<and> pre nj2 j \<le> dgs D (Suc m)"
  proof
    fix j show "pre nj2 j \<le> dgs D j \<and> pre nj2 j \<le> dgs D (Suc m)"
      using inv by (cases j) (simp_all add: pre_def)
  qed
  have p2: "pre nj2 (Suc m) = dgs D (Suc m)" using inv by (simp add: pre_def)
  have d: "d = n - Suc m" using Suc.hyps(2) by simp
  have le: "Suc m \<le> n" using lt by simp
  have r: "snd (row_loop D D 0 n [Suc m..<n] (nj2, bi2, bj2, bs2)) = (bi', bj', bs')"
    using Suc.prems(6) c unfolding u by simp
  show ?case
    by (rule Suc.hyps(1) [OF d le p1 p2 _ _ r]) (use inv in simp_all)
qed

lemma extend_back_diag:
  "extend_back D D 0 0 False (d, d, s) = (0, 0, d + s)"
proof (induction d arbitrary: s)
  case 0
  show ?case by (subst extend_back.simps) simp
next
  case (Suc d)
  have "extend_back D D 0 0 False (Suc d, Suc d, s) = extend_back D D 0 0 False (d, d, s + 1)"
    by (subst extend_back.simps) (simp add: isbjunk_def)
  then show ?case using Suc.IH [of "s + 1"] by simp
qed

lemma extend_fwd_diag:
  "s \<le> n \<Longrightarrow> extend_fwd D D n n False (0, 0, s) = (0, 0, n)"
proof (induction "n - s" arbitrary: s)
  case 0
  then have "s = n" by simp
  then show ?case by (subst extend_fwd.simps) simp
next
  case (Suc d)
  then have lt: "s < n" by simp
  have "extend_fwd D D n n False (0, 0, s) = extend_fwd D D n n False (0, 0, s + 1)"
    using lt by (subst extend_fwd.simps) (simp add: isbjunk_def)
  moreover have "extend_fwd D D n n False (0, 0, s + 1) = (0, 0, n)"
    using Suc.hyps(1) [of "s + 1"] Suc.hyps(2) lt by simp
  ultimately show ?case by simp
qed

lemma extend_junk_noop:
  "extend_back a b alo blo True best = best" "extend_fwd a b ahi bhi True best = best"
proof -
  obtain i j k where best: "best = (i, j, k)" by (cases best) auto
  show "extend_back a b alo blo True best = best"
    unfolding best by (subst extend_back.simps) (simp add: isbjunk_def)
  show "extend_fwd a b ahi bhi True best = best"
    unfolding best by (subst extend_fwd.simps) (simp add: isbjunk_def)
qed

lemma find_longest_match_same:
  "find_longest_match D D 0 (length D) 0 (length D) = (0, 0, length D)"
proof -
  define n where "n = length D"
  define best where "best = snd (row_loop D D 0 n [0..<n] (\<lambda>_. 0, (0, 0, 0)))"
  obtain bi bj bs where b: "best = (bi, bj, bs)" by (cases best) auto
  have diag: "bi = bj"
    by (rule row_loop_diag [of n D 0 "\<lambda>_. 0" 0 0 0 bi bj bs])
       (use b in \<open>simp_all add: n_def best_def pre_def\<close>)
  have ok: "best_ok D D 0 n 0 n best"
    unfolding best_def by (intro row_loop_ok runs_ok_zero best_ok_init order_refl)
  then have le: "bi + bs \<le> n" unfolding b by (simp add: best_ok_def split: if_splits)
  have "find_longest_match D D 0 n 0 n
      = extend_fwd D D n n False (extend_back D D 0 0 False (bi, bj, bs))"
    unfolding find_longest_match_def extend_junk_noop best_def [symmetric] b ..
  also have "\<dots> = (0, 0, n)" using le by (simp add: diag [symmetric] extend_back_diag extend_fwd_diag)
  finally show ?thesis by (simp add: n_def)
qed

section \<open>Identical sequences, disjoint sequences, shared elements\<close>

lemma blocks_rec_same:
  "blocks_rec D D 0 (length D) 0 (length D) = (if D = [] then [] else [(0, 0, length D)])"
  by (subst blocks_rec.simps) (simp add: find_longest_match_same)

lemma get_matching_blocks_same:
  "get_matching_blocks D D
     = (if D = [] then [(0, 0, 0)] else [(0, 0, length D), (length D, length D, 0)])"
  by (simp add: get_matching_blocks_eq blocks_rec_same)

lemma matches_same: "matches D D = length D"
  by (simp add: matches_eq blocks_rec_same)

lemma get_opcodes_same:
  "get_opcodes D D = (if D = [] then [] else [(Equal, 0, length D, 0, length D)])"
  by (simp add: get_opcodes_def get_matching_blocks_same)

lemma blocks_rec_disjoint:
  assumes "set a \<inter> set b = {}"
  shows "blocks_rec a b 0 (length a) 0 (length b) = []"
proof -
  obtain i j k where f: "find_longest_match a b 0 (length a) 0 (length b) = (i, j, k)"
    by (cases "find_longest_match a b 0 (length a) 0 (length b)") auto
  have "k = 0"
  proof (rule ccontr)
    assume k: "k \<noteq> 0"
    note bd = find_longest_match_bounds [OF f k]
    have "a ! i = b ! j" using bd(5) k by force
    moreover have "a ! i \<in> set a" "b ! j \<in> set b" using bd(3,4) k by simp_all
    ultimately show False using assms by auto
  qed
  then show ?thesis using f by (subst blocks_rec.simps) simp
qed

lemma matches_disjoint: "set a \<inter> set b = {} \<Longrightarrow> matches a b = 0"
  by (simp add: matches_eq blocks_rec_disjoint)

lemma chain_loop_size_mono:
  "chain_loop i blo bhi j2len js (nj, bi, bj, bs) = (nj', bi', bj', bs') \<Longrightarrow> bs \<le> bs'"
proof (induction js arbitrary: nj bi bj bs)
  case Nil
  then show ?case by simp
next
  case (Cons j js)
  show ?case
  proof (cases "j < blo")
    case True
    then show ?thesis using Cons by simp
  next
    case lo: False
    show ?thesis
    proof (cases "j \<ge> bhi")
      case True
      then show ?thesis using Cons.prems lo by simp
    next
      case False
      define k where "k = (if j = 0 then 0 else j2len (j - 1)) + 1"
      show ?thesis
      proof (cases "k > bs")
        case True
        then have "chain_loop i blo bhi j2len js (nj(j := k), i + 1 - k, j + 1 - k, k)
            = (nj', bi', bj', bs')"
          using Cons.prems lo False by (simp add: k_def Let_def)
        from Cons.IH [OF this] True show ?thesis by simp
      next
        case nk: False
        then have "chain_loop i blo bhi j2len js (nj(j := k), bi, bj, bs) = (nj', bi', bj', bs')"
          using Cons.prems lo False by (simp add: k_def Let_def)
        from Cons.IH [OF this] show ?thesis .
      qed
    qed
  qed
qed

lemma chain_loop_size_pos:
  assumes "\<forall>j \<in> set js. blo \<le> j \<and> j < bhi" and "js \<noteq> []"
    and "chain_loop i blo bhi j2len js (nj, bi, bj, bs) = (nj', bi', bj', bs')"
  shows "0 < bs'"
proof -
  obtain j js' where js: "js = j # js'" using assms(2) by (cases js) auto
  define k where "k = (if j = 0 then 0 else j2len (j - 1)) + 1"
  define best2 where "best2 = (if k > bs then (i + 1 - k, j + 1 - k, k) else (bi, bj, bs))"
  obtain bi2 bj2 bs2 where b2: "best2 = (bi2, bj2, bs2)" by (cases best2) auto
  have "0 < bs2" using b2 by (auto simp: best2_def k_def split: if_splits)
  moreover have "chain_loop i blo bhi j2len (j # js') (nj, bi, bj, bs)
      = chain_loop i blo bhi j2len js' (nj(j := k), best2)"
    using assms(1) js by (simp add: k_def best2_def Let_def)
  then have "chain_loop i blo bhi j2len js' (nj(j := k), bi2, bj2, bs2) = (nj', bi', bj', bs')"
    using assms(3) js b2 by simp
  ultimately show ?thesis using chain_loop_size_mono by fastforce
qed

lemma row_loop_size_mono:
  "snd (row_loop a b blo bhi rows (j2len, bi, bj, bs)) = (bi', bj', bs') \<Longrightarrow> bs \<le> bs'"
proof (induction rows arbitrary: j2len bi bj bs)
  case Nil
  then show ?case by simp
next
  case (Cons i rows)
  obtain nj2 bi2 bj2 bs2 where
    c: "chain_loop i blo bhi j2len (b2j_get b (a ! i)) (\<lambda>_. 0, bi, bj, bs) = (nj2, bi2, bj2, bs2)"
    by (cases "chain_loop i blo bhi j2len (b2j_get b (a ! i)) (\<lambda>_. 0, bi, bj, bs)") auto
  have "snd (row_loop a b blo bhi rows (nj2, bi2, bj2, bs2)) = (bi', bj', bs')"
    using Cons.prems c by simp
  from Cons.IH [OF this] chain_loop_size_mono [OF c] show ?case by simp
qed

lemma row_loop_size_pos:
  assumes "i \<in> set rows" and "b2j_get b (a ! i) \<noteq> []" and "bhi = length b"
    and "snd (row_loop a b 0 bhi rows (j2len, bi, bj, bs)) = (bi', bj', bs')"
  shows "0 < bs'"
  using assms(1,4)
proof (induction rows arbitrary: j2len bi bj bs)
  case Nil
  then show ?case by simp
next
  case (Cons r rows)
  obtain nj2 bi2 bj2 bs2 where
    c: "chain_loop r 0 bhi j2len (b2j_get b (a ! r)) (\<lambda>_. 0, bi, bj, bs) = (nj2, bi2, bj2, bs2)"
    by (cases "chain_loop r 0 bhi j2len (b2j_get b (a ! r)) (\<lambda>_. 0, bi, bj, bs)") auto
  have rest: "snd (row_loop a b 0 bhi rows (nj2, bi2, bj2, bs2)) = (bi', bj', bs')"
    using Cons.prems(2) c by simp
  show ?case
  proof (cases "r = i")
    case True
    have "\<forall>j \<in> set (b2j_get b (a ! r)). 0 \<le> j \<and> j < bhi"
      using b2j_get_elt assms(3) by fast
    from chain_loop_size_pos [OF this _ c] True assms(2) have "0 < bs2" by simp
    with row_loop_size_mono [OF rest] show ?thesis by simp
  next
    case False
    then have "i \<in> set rows" using Cons.prems(1) by simp
    from Cons.IH [OF this rest] show ?thesis .
  qed
qed

lemma extend_back_size_mono:
  "extend_back a b alo blo junk (bi, bj, bs) = (bi', bj', bs') \<Longrightarrow> bs \<le> bs'"
proof (induction a b alo blo junk "(bi, bj, bs)" arbitrary: bi bj bs rule: extend_back.induct)
  case (1 a b alo blo junk besti bestj bestsize)
  show ?case
  proof (cases "besti > alo \<and> bestj > blo \<and> isbjunk (b ! (bestj - 1)) = junk
         \<and> a ! (besti - 1) = b ! (bestj - 1)")
    case False
    have "extend_back a b alo blo junk (besti, bestj, bestsize) = (besti, bestj, bestsize)"
      using False by (subst extend_back.simps) auto
    then show ?thesis using "1.prems" by simp
  next
    case True
    have "extend_back a b alo blo junk (besti, bestj, bestsize)
        = extend_back a b alo blo junk (besti - 1, bestj - 1, bestsize + 1)"
      using True by (subst extend_back.simps) simp
    then have "extend_back a b alo blo junk (besti - 1, bestj - 1, bestsize + 1) = (bi', bj', bs')"
      using "1.prems" by simp
    from "1.hyps" [OF True this] show ?thesis by simp
  qed
qed

lemma extend_fwd_size_mono:
  "extend_fwd a b ahi bhi junk (bi, bj, bs) = (bi', bj', bs') \<Longrightarrow> bs \<le> bs'"
proof (induction a b ahi bhi junk "(bi, bj, bs)" arbitrary: bi bj bs rule: extend_fwd.induct)
  case (1 a b ahi bhi junk besti bestj bestsize)
  show ?case
  proof (cases "besti + bestsize < ahi \<and> bestj + bestsize < bhi
         \<and> isbjunk (b ! (bestj + bestsize)) = junk
         \<and> a ! (besti + bestsize) = b ! (bestj + bestsize)")
    case False
    have "extend_fwd a b ahi bhi junk (besti, bestj, bestsize) = (besti, bestj, bestsize)"
      using False by (subst extend_fwd.simps) auto
    then show ?thesis using "1.prems" by simp
  next
    case True
    have "extend_fwd a b ahi bhi junk (besti, bestj, bestsize)
        = extend_fwd a b ahi bhi junk (besti, bestj, bestsize + 1)"
      using True by (subst extend_fwd.simps) simp
    then have "extend_fwd a b ahi bhi junk (besti, bestj, bestsize + 1) = (bi', bj', bs')"
      using "1.prems" by simp
    from "1.hyps" [OF True this] show ?thesis by simp
  qed
qed



lemma find_longest_match_common:
  assumes "length b < 200" and "x \<in> set a" and "x \<in> set b"
    and "find_longest_match a b 0 (length a) 0 (length b) = (i, j, k)"
  shows "0 < k"
proof -
  obtain ia where ia: "ia < length a" "a ! ia = x"
    using assms(2) by (auto simp: in_set_conv_nth)
  obtain jb where jb: "jb < length b" "b ! jb = x"
    using assms(3) by (auto simp: in_set_conv_nth)
  have np: "\<not> popular b x" using assms(1) by (simp add: popular_def)
  have g: "b2j_get b x = chain_indices b x" using np by (simp add: b2j_get_def)
  have "jb \<in> set (chain_indices b x)" unfolding chain_indices_set using jb by simp
  then have "chain_indices b x \<noteq> []" by (cases "chain_indices b x") simp_all
  then have ne: "b2j_get b (a ! ia) \<noteq> []" unfolding ia(2) g .
  define r0 where "r0 = snd (row_loop a b 0 (length b) [0..<length a] (\<lambda>_. 0, (0, 0, 0)))"
  define r1 where "r1 = extend_back a b 0 0 False r0"
  define r2 where "r2 = extend_fwd a b (length a) (length b) False r1"
  define r3 where "r3 = extend_back a b 0 0 True r2"
  define r4 where "r4 = extend_fwd a b (length a) (length b) True r3"
  obtain i0 j0 k0 where e0: "r0 = (i0, j0, k0)" by (cases r0) auto
  obtain i1 j1 k1 where e1: "r1 = (i1, j1, k1)" by (cases r1) auto
  obtain i2 j2 k2 where e2: "r2 = (i2, j2, k2)" by (cases r2) auto
  obtain i3 j3 k3 where e3: "r3 = (i3, j3, k3)" by (cases r3) auto
  have e4: "r4 = (i, j, k)"
    using assms(4) by (simp add: find_longest_match_def r4_def r3_def r2_def r1_def r0_def)
  have "0 < k0"
    by (rule row_loop_size_pos [of ia "[0..<length a]" b a "length b" "\<lambda>_. 0" 0 0 0 i0 j0 k0])
       (use ia ne e0 in \<open>simp_all add: r0_def\<close>)
  also have "k0 \<le> k1" using extend_back_size_mono [of a b 0 0 False i0 j0 k0 i1 j1 k1] e0 e1
    by (simp add: r1_def)
  also have "k1 \<le> k2"
    using extend_fwd_size_mono [of a b "length a" "length b" False i1 j1 k1 i2 j2 k2] e1 e2
    by (simp add: r2_def)
  also have "k2 \<le> k3" using extend_back_size_mono [of a b 0 0 True i2 j2 k2 i3 j3 k3] e2 e3
    by (simp add: r3_def)
  also have "k3 \<le> k"
    using extend_fwd_size_mono [of a b "length a" "length b" True i3 j3 k3 i j k] e3 e4
    by (simp add: r4_def)
  finally show ?thesis .
qed

section \<open>The value of the ratio\<close>

lemma matches_common:
  assumes "length b < 200" and "set a \<inter> set b \<noteq> {}"
  shows "0 < matches a b"
proof -
  obtain x where x: "x \<in> set a" "x \<in> set b" using assms(2) by auto
  obtain i j k where f: "find_longest_match a b 0 (length a) 0 (length b) = (i, j, k)"
    by (cases "find_longest_match a b 0 (length a) 0 (length b)") auto
  have k: "0 < k" by (rule find_longest_match_common [OF assms(1) x f])
  have "k \<le> sizes (blocks_rec a b 0 (length a) 0 (length b))"
    using f k by (subst blocks_rec.simps) simp
  then show ?thesis using k by (simp add: matches_eq)
qed


lemma ratio_value:
  "ratio a b = Inr (if a = [] \<and> b = [] then 1
                    else 2 * of_nat (matches a b) / of_nat (length a + length b))"
  by (simp add: ratio_def calculate_ratio_def truediv_def)

lemma ratio_nonempty:
  "a \<noteq> [] \<or> b \<noteq> [] \<Longrightarrow>
   ratio a b = Inr (2 * of_nat (matches a b) / of_nat (length a + length b))"
  unfolding ratio_value by auto

lemma rat_of_nat_sum_nonzero: "a \<noteq> [] \<or> b \<noteq> [] \<Longrightarrow> (of_nat (length a + length b) :: rat) \<noteq> 0"
  unfolding of_nat_eq_0_iff by auto

lemma ratio_one_iff: "ratio a b = Inr 1 \<longleftrightarrow> a = b"
proof
  assume r: "ratio a b = Inr 1"
  show "a = b"
  proof (cases "a = [] \<and> b = []")
    case True
    then show ?thesis by simp
  next
    case False
    then have ne: "a \<noteq> [] \<or> b \<noteq> []" by simp
    define L where "L = length a + length b"
    define M where "M = matches a b"
    have L: "(of_nat L :: rat) \<noteq> 0" unfolding L_def by (rule rat_of_nat_sum_nonzero [OF ne])
    have "Inr (2 * (of_nat M :: rat) / of_nat L) = (Inr 1 :: py_error + rat)"
      using r unfolding ratio_nonempty [OF ne] L_def M_def .
    then have "2 * (of_nat M :: rat) / of_nat L = 1" by (simp only: sum.inject)
    then have "2 * (of_nat M :: rat) = of_nat L" using L by (simp only: divide_eq_1_iff)
    then have "(of_nat (2 * M) :: rat) = of_nat L" by (simp only: of_nat_mult of_nat_numeral)
    then have "2 * M = L" by (simp only: of_nat_eq_iff)
    with matches_le [of a b] have "matches a b = length a" "matches a b = length b"
      unfolding L_def M_def by simp_all
    then show ?thesis by (rule matches_full_eq)
  qed
next
  assume "a = b"
  then show "ratio a b = Inr 1" by (simp add: ratio_value matches_same)
qed

lemma ratio_zero_iff:
  assumes "a \<noteq> [] \<or> b \<noteq> []"
  shows "ratio a b = Inr 0 \<longleftrightarrow> matches a b = 0"
proof -
  have L: "(of_nat (length a + length b) :: rat) \<noteq> 0"
    by (rule rat_of_nat_sum_nonzero [OF assms])
  have "ratio a b = Inr 0
      \<longleftrightarrow> 2 * (of_nat (matches a b) :: rat) / of_nat (length a + length b) = 0"
    unfolding ratio_nonempty [OF assms] by (simp only: sum.inject)
  also have "\<dots> \<longleftrightarrow> (of_nat (matches a b) :: rat) = 0"
    using L by (simp only: divide_eq_0_iff) simp
  also have "\<dots> \<longleftrightarrow> matches a b = 0" by (simp only: of_nat_eq_0_iff)
  finally show ?thesis .
qed

section \<open>What the similarity ratio guarantees\<close>

text \<open>
  C1, as stated: the ratio is 0.0 if and only if the two sequences share no element.
  With 200 elements or more in the second sequence the matcher drops every popular
  element from its index, so a first sequence made of such an element alone matches
  nothing: the ratio is 0 although \<^verbatim>\<open>x\<close> occurs on both sides.
\<close>

theorem ratio_zero_shared_counterexample:
  "ratio ''x'' (CHR ''y'' # replicate 200 CHR ''x'') = Inr 0
   \<and> set ''x'' \<inter> set (CHR ''y'' # replicate 200 CHR ''x'') \<noteq> {}"
proof
  show "ratio ''x'' (CHR ''y'' # replicate 200 CHR ''x'') = Inr 0"
    by code_simp
  have x: "CHR ''x'' \<in> set ''x''" by simp
  have "CHR ''x'' \<in> set (replicate 200 CHR ''x'')" unfolding in_set_replicate by simp
  then have "CHR ''x'' \<in> set (CHR ''y'' # replicate 200 CHR ''x'')"
    by (simp only: list.set insert_iff simp_thms)
  with x show "set ''x'' \<inter> set (CHR ''y'' # replicate 200 CHR ''x'') \<noteq> {}"
    by blast
qed

text \<open>
  C1, amended: the ratio is 2 times the total size of the matching blocks divided by the
  sum of the two lengths, and 1 when both sequences are empty; it is 1 if and only if
  the two sequences are identical; it is 0 whenever the sequences share no element and
  are not both empty, and a ratio of 0 means that they share no element provided the
  second sequence has fewer than 200 elements; comparing a sequence with itself gives
  ratio 1 and only hunks tagged equal.
\<close>

theorem ratio_properties:
  "ratio a b = Inr (if a = [] \<and> b = [] then 1
                    else 2 * of_nat (matches a b) / of_nat (length a + length b))
   \<and> (ratio a b = Inr 1 \<longleftrightarrow> a = b)
   \<and> (set a \<inter> set b = {} \<and> (a \<noteq> [] \<or> b \<noteq> []) \<longrightarrow> ratio a b = Inr 0)
   \<and> (ratio a b = Inr 0 \<and> length b < 200 \<longrightarrow> set a \<inter> set b = {})
   \<and> ratio ([] :: 'a list) [] = Inr 1
   \<and> ratio D D = Inr 1
   \<and> (\<forall>opc \<in> set (get_opcodes D D). fst opc = Equal)"
proof -
  have c3: "set a \<inter> set b = {} \<and> (a \<noteq> [] \<or> b \<noteq> []) \<longrightarrow> ratio a b = Inr 0"
  proof
    assume h: "set a \<inter> set b = {} \<and> (a \<noteq> [] \<or> b \<noteq> [])"
    then have ne: "a \<noteq> [] \<or> b \<noteq> []" and d: "set a \<inter> set b = {}" by simp_all
    have "matches a b = 0" by (rule matches_disjoint [OF d])
    then show "ratio a b = Inr 0" unfolding ratio_zero_iff [OF ne] .
  qed
  have c4: "ratio a b = Inr 0 \<and> length b < 200 \<longrightarrow> set a \<inter> set b = {}"
  proof (intro impI)
    assume h: "ratio a b = Inr 0 \<and> length b < 200"
    have ne: "a \<noteq> [] \<or> b \<noteq> []"
    proof (rule ccontr)
      assume "\<not> (a \<noteq> [] \<or> b \<noteq> [])"
      then have "ratio a b = Inr 1" by (simp add: ratio_value)
      with h show False by simp
    qed
    have m0: "matches a b = 0" using h unfolding ratio_zero_iff [OF ne] by simp
    show "set a \<inter> set b = {}"
    proof (rule ccontr)
      assume "set a \<inter> set b \<noteq> {}"
      with h have "0 < matches a b" by (simp add: matches_common)
      with m0 show False by simp
    qed
  qed
  have c5: "ratio ([] :: 'a list) [] = Inr 1" by (simp add: ratio_value)
  have c6: "ratio D D = Inr 1" using ratio_one_iff [of D D] by simp
  have c7: "\<forall>opc \<in> set (get_opcodes D D). fst opc = Equal"
    by (simp add: get_opcodes_same)
  show ?thesis by (intro conjI ratio_value ratio_one_iff c3 c4 c5 c6 c7)
qed

theorem ratio_properties_witness:
  "set ''ab'' \<inter> set ''cd'' = {} \<and> ''ab'' \<noteq> []
   \<and> ratio ''ab'' ''cd'' = Inr 0 \<and> length ''cd'' < 200
   \<and> get_opcodes ''ab'' ''ab'' = [(Equal, 0, 2, 0, 2)]"
  using ratio_properties [of "''ab''" "''cd''" "''ab''"] by (auto simp: get_opcodes_same)

text \<open>
  C5, as stated: the ratio is symmetric in its two arguments. The words \<^verbatim>\<open>tide\<close> and
  \<^verbatim>\<open>diet\<close> score 1/4 in one order and 1/2 in the other.
\<close>

theorem ratio_symmetry_counterexample:
  "ratio ''tide'' ''diet'' = Inr (1 / 4) \<and> ratio ''diet'' ''tide'' = Inr (1 / 2)
   \<and> ratio ''tide'' ''diet'' \<noteq> ratio ''diet'' ''tide''"
proof -
  have 1: "ratio ''tide'' ''diet'' = Inr (1 / 4)" by code_simp
  have 2: "ratio ''diet'' ''tide'' = Inr (1 / 2)" by code_simp
  show ?thesis unfolding 1 2 by simp
qed

text \<open>
  C5, amended: the two ratios are equal exactly when the matcher finds the same number
  of matched elements in both orders; this is the case when the sequences share no
  element, and one ratio is 1 if and only if the other is, but in general the two
  orders give different ratios.
\<close>

theorem ratio_symmetric_cases:
  "(ratio a b = ratio b a \<longleftrightarrow> matches a b = matches b a)
   \<and> (ratio a b = Inr 1 \<longleftrightarrow> ratio b a = Inr 1)
   \<and> (set a \<inter> set b = {} \<longrightarrow> ratio a b = ratio b a)"
proof -
  have m: "ratio a b = ratio b a \<longleftrightarrow> matches a b = matches b a"
  proof (cases "a = [] \<and> b = []")
    case True
    then show ?thesis using matches_le [of a b] matches_le [of b a] by (simp add: ratio_value)
  next
    case False
    then have ne: "a \<noteq> [] \<or> b \<noteq> []" and ne': "b \<noteq> [] \<or> a \<noteq> []" by auto
    have L: "(of_nat (length a + length b) :: rat) \<noteq> 0"
      by (rule rat_of_nat_sum_nonzero [OF ne])
    have "ratio a b = ratio b a
        \<longleftrightarrow> 2 * (of_nat (matches a b) :: rat) / of_nat (length a + length b)
            = 2 * of_nat (matches b a) / of_nat (length a + length b)"
      unfolding ratio_nonempty [OF ne] ratio_nonempty [OF ne'] add.commute [of "length b"]
      by (simp only: sum.inject)
    also have "\<dots> \<longleftrightarrow> (of_nat (matches a b) :: rat) = of_nat (matches b a)"
      using L by (simp only: divide_cancel_right) simp
    also have "\<dots> \<longleftrightarrow> matches a b = matches b a" by (simp only: of_nat_eq_iff)
    finally show ?thesis .
  qed
  have o: "ratio a b = Inr 1 \<longleftrightarrow> ratio b a = Inr 1"
    unfolding ratio_one_iff by auto
  have d: "set a \<inter> set b = {} \<longrightarrow> ratio a b = ratio b a"
  proof
    assume h: "set a \<inter> set b = {}"
    then have "set b \<inter> set a = {}" by auto
    with h have "matches a b = matches b a" by (simp add: matches_disjoint)
    with m show "ratio a b = ratio b a" by simp
  qed
  show ?thesis by (intro conjI m o d)
qed

theorem ratio_symmetric_cases_witness:
  "set ''ab'' \<inter> set ''cd'' = {} \<and> ratio ''ab'' ''cd'' = ratio ''cd'' ''ab''"
  using ratio_symmetric_cases [of "''ab''" "''cd''"] by simp

section \<open>No script step fails\<close>

lemma split_loop_nonempty: "split_loop sep piece s \<noteq> []"
proof (induction sep piece s rule: split_loop.induct)
  case (1 sep piece s)
  show ?case
  proof (cases "s = []")
    case True
    then show ?thesis by (subst split_loop.simps) simp
  next
    case False
    show ?thesis
    proof (cases "sep \<noteq> [] \<and> startswith s sep")
      case True
      then show ?thesis using False by (subst split_loop.simps) simp
    next
      case no: False
      have "split_loop sep piece s = split_loop sep (piece @ [hd s]) (tl s)"
        using False no by (subst split_loop.simps) auto
      then show ?thesis using "1.IH"(2) [OF False no] by simp
    qed
  qed
qed

lemma index0_split_lines: "index0 (split_lines s) = Inr (hd (split_lines s))"
  using split_loop_nonempty [of "[newline]" "[]" s]
  by (cases "split_lines s") (simp_all add: index0_def split_lines_def)

lemma percent_ratio: "percent (ratio a b) = Inr (projr (percent (ratio a b)))"
  by (simp add: percent_def ratio_value)

lemma section_loop_value:
  "section_loop k pairs =
     Inr (map (\<lambda>(i, d, p). (i, take 50 (hd (split_lines d)), projr (percent (ratio d p))))
           (filter (\<lambda>(i, d, p). 10 \<le> length d) (zip [k..<k + length pairs] pairs)))"
proof (induction pairs arbitrary: k)
  case Nil
  show ?case by simp
next
  case (Cons x pairs)
  obtain d p where x: "x = (d, p)" by (cases x) auto
  have z: "zip [k..<k + length (x # pairs)] (x # pairs)
      = (k, d, p) # zip [Suc k..<Suc k + length pairs] pairs"
  proof -
    have "k < k + length (x # pairs)" by simp
    then have u: "[k..<k + length (x # pairs)] = k # [Suc k..<k + length (x # pairs)]"
      by (rule upt_conv_Cons)
    have e: "k + length (x # pairs) = Suc k + length pairs" by simp
    show ?thesis by (subst u, subst e) (simp only: x zip_Cons_Cons)
  qed
  obtain r where r: "percent (ratio d p) = Inr r" using percent_ratio [of d p] by blast
  show ?case
  proof (cases "length d < 10")
    case True
    have "section_loop k (x # pairs) = section_loop (Suc k) pairs"
      using True x by simp
    then show ?thesis unfolding z Cons.IH [of "Suc k"] using True by simp
  next
    case False
    have "section_loop k (x # pairs)
        = (case section_loop (Suc k) pairs of
             Inl e \<Rightarrow> Inl e
           | Inr out \<Rightarrow> Inr ((k, take 50 (hd (split_lines d)), r) # out))"
      using False x r by (simp add: index0_split_lines)
    then show ?thesis unfolding z Cons.IH [of "Suc k"] using False r by simp
  qed
qed

lemma zip_enumerate:
  "zip [0..<length (zip xs ys)] (zip xs ys)
     = map (\<lambda>i. (i, xs ! i, ys ! i)) [0..<min (length xs) (length ys)]"
  by (rule nth_equalityI) simp_all


section \<open>Section pairing\<close>

text \<open>
  C4, as stated: sections are paired by title first, and a section present in only one
  document is reported as unmatched. Here the reference has the sections
  \<^verbatim>\<open>Abstract\<close> and \<^verbatim>\<open>1 Introduction\<close> and the candidate only \<^verbatim>\<open>1 Introduction\<close>:
  the loop compares the reference's Abstract with the candidate's Introduction (48.6%),
  and the reference's Introduction appears nowhere in the output.
\<close>

theorem section_pairing_counterexample:
  "split_sections (''# Title paper'' @ [newline] @ ''## Abstract text here'' @ [newline]
                    @ ''## 1 Introduction text'')
     = [''# Title paper'', ''Abstract text here'', ''1 Introduction text'']
   \<and> split_sections (''# Title paper'' @ [newline] @ ''## 1 Introduction text'')
     = [''# Title paper'', ''1 Introduction text'']
   \<and> section_similarity
        (''# Title paper'' @ [newline] @ ''## Abstract text here'' @ [newline]
           @ ''## 1 Introduction text'')
        (''# Title paper'' @ [newline] @ ''## 1 Introduction text'')
     = Inr [(0, ''# Title paper'', 100), (1, ''Abstract text here'', 1800 / 37)]"
  by code_simp

text \<open>
  C4, amended: both documents are cut at the same pattern, a newline followed by
  \<^verbatim>\<open>## \<close>; sections are paired by position only, the i-th section of the reference
  with the i-th section of the candidate, for the positions below 5 that exist in both
  documents; a pair whose reference section has fewer than 10 characters is skipped;
  every other pair is reported with its position, the first 50 characters of the first
  line of the reference section and the similarity of the two sections. A section with
  no partner at its position is not reported. (A section always has a first line and a
  similarity, so \<^const>\<open>hd\<close> and \<^const>\<open>projr\<close> below are applied where they are defined.)
\<close>

theorem section_pairing_positional:
  "section_similarity docling precision =
     Inr (map (\<lambda>i. (i, take 50 (hd (split_lines (split_sections docling ! i))),
                      projr (percent (ratio (split_sections docling ! i)
                                            (split_sections precision ! i)))))
           (filter (\<lambda>i. 10 \<le> length (split_sections docling ! i))
              [0..<min 5 (min (length (split_sections docling))
                              (length (split_sections precision)))]))
   \<and> split_lines d_sec \<noteq> []
   \<and> percent (ratio d_sec p_sec) = Inr (projr (percent (ratio d_sec p_sec)))"
proof (intro conjI)
  show "split_lines d_sec \<noteq> []"
    unfolding split_lines_def by (rule split_loop_nonempty)
  show "percent (ratio d_sec p_sec) = Inr (projr (percent (ratio d_sec p_sec)))"
    by (rule percent_ratio)
next
  define ds where "ds = split_sections docling"
  define ps where "ps = split_sections precision"
  define n where "n = min 5 (min (length ds) (length ps))"
  define f where "f = (\<lambda>(i :: nat, d, p).
      (i, take 50 (hd (split_lines d)), projr (percent (ratio d p))))"
  define g where "g = (\<lambda>(i :: nat, d :: string, p :: string). 10 \<le> length d)"
  define h where "h = (\<lambda>i. (i, take 5 ds ! i, take 5 ps ! i))"
  have len: "min (length (take 5 ds)) (length (take 5 ps)) = n"
    by (simp add: n_def)
  have z: "zip [0..<0 + length (zip (take 5 ds) (take 5 ps))] (zip (take 5 ds) (take 5 ps))
      = map h [0..<n]"
    using zip_enumerate [of "take 5 ds" "take 5 ps"] unfolding len h_def by simp
  have "section_similarity docling precision
      = Inr (map f (filter g (map h [0..<n])))"
    unfolding section_similarity_def section_loop_value z [symmetric] f_def g_def ds_def ps_def ..
  also have "map f (filter g (map h [0..<n])) = map (f \<circ> h) (filter (g \<circ> h) [0..<n])"
    by (simp add: filter_map)
  also have "filter (g \<circ> h) [0..<n] = filter (\<lambda>i. 10 \<le> length (ds ! i)) [0..<n]"
    by (rule filter_cong) (auto simp: g_def h_def n_def)
  also have "map (f \<circ> h) (filter (\<lambda>i. 10 \<le> length (ds ! i)) [0..<n])
      = map (\<lambda>i. (i, take 50 (hd (split_lines (ds ! i))),
                    projr (percent (ratio (ds ! i) (ps ! i)))))
          (filter (\<lambda>i. 10 \<le> length (ds ! i)) [0..<n])"
    by (rule map_cong) (auto simp: f_def h_def n_def)
  finally show "section_similarity docling precision =
     Inr (map (\<lambda>i. (i, take 50 (hd (split_lines (split_sections docling ! i))),
                      projr (percent (ratio (split_sections docling ! i)
                                            (split_sections precision ! i)))))
           (filter (\<lambda>i. 10 \<le> length (split_sections docling ! i))
              [0..<min 5 (min (length (split_sections docling))
                              (length (split_sections precision)))]))"
    unfolding ds_def ps_def n_def .
qed

section \<open>Whole-document similarity\<close>

text \<open>
  C6, as stated: two documents that share no line have overall ratio 0.0. The documents
  \<^verbatim>\<open>ab\<close> and \<^verbatim>\<open>ac\<close> have one line each and share none, and score 50%.
\<close>

theorem no_shared_line_counterexample:
  "set (split_lines ''ab'') \<inter> set (split_lines ''ac'') = {} \<and> sim ''ab'' ''ac'' = Inr 50"
  by code_simp

text \<open>
  C6, amended: the whole-document comparison works on characters: for every pair of
  documents that share no character and are not both empty the overall similarity is
  0.0, and an overall similarity of 0.0 against a reference of fewer than 200
  characters means that the two documents share no character.
\<close>

theorem no_shared_character:
  "(set precision \<inter> set docling = {} \<and> (precision \<noteq> [] \<or> docling \<noteq> [])
      \<longrightarrow> sim precision docling = Inr 0)
   \<and> (sim precision docling = Inr 0 \<and> length docling < 200
      \<longrightarrow> set precision \<inter> set docling = {})"
proof (intro conjI impI)
  assume h: "set precision \<inter> set docling = {} \<and> (precision \<noteq> [] \<or> docling \<noteq> [])"
  then have ne: "precision \<noteq> [] \<or> docling \<noteq> []" and d: "set precision \<inter> set docling = {}"
    by simp_all
  have "matches precision docling = 0" by (rule matches_disjoint [OF d])
  then have "ratio precision docling = Inr 0" unfolding ratio_zero_iff [OF ne] .
  then show "sim precision docling = Inr 0" by (simp add: sim_def percent_def)
next
  assume h: "sim precision docling = Inr 0 \<and> length docling < 200"
  obtain r where r: "ratio precision docling = Inr r"
    using ratio_value [of precision docling] by blast
  with h have "r * 100 = 0" by (simp add: sim_def percent_def)
  then have r0: "ratio precision docling = Inr 0" using r by simp
  have ne: "precision \<noteq> [] \<or> docling \<noteq> []"
  proof (rule ccontr)
    assume "\<not> (precision \<noteq> [] \<or> docling \<noteq> [])"
    then have "ratio precision docling = Inr 1" by (simp add: ratio_value)
    with r0 show False by simp
  qed
  have m0: "matches precision docling = 0" using r0 unfolding ratio_zero_iff [OF ne] .
  show "set precision \<inter> set docling = {}"
  proof (rule ccontr)
    assume "set precision \<inter> set docling \<noteq> {}"
    with h have "0 < matches precision docling" by (simp add: matches_common)
    with m0 show False by simp
  qed
qed

theorem no_shared_character_witness:
  "set ''ab'' \<inter> set ''cd'' = {} \<and> ''ab'' \<noteq> [] \<and> sim ''ab'' ''cd'' = Inr 0
   \<and> length ''cd'' < 200"
  using no_shared_character [of "''ab''" "''cd''"] by auto

section \<open>Every comparison returns\<close>

text \<open>
  C8: no comparison raises. Every operation of the scripts that can raise in Python (the
  division in \<^verbatim>\<open>_calculate_ratio\<close>, the index \<^verbatim>\<open>[0]\<close> after \<^verbatim>\<open>split\<close>) is modelled with
  an error result; for all inputs, empty texts and texts without headings or markers
  included, the overall similarity, the per-section similarities, the similarity of the
  joined lines and the Abstract comparison return a value, the last one possibly after
  being skipped.
\<close>

theorem comparison_never_raises:
  "(\<exists>r. sim precision docling = Inr r)
   \<and> (\<exists>out. section_similarity docling precision = Inr out)
   \<and> (\<exists>r. total_sim docling_lines precision_lines = Inr r)
   \<and> (abs_sim docling_lines precision_lines = None
      \<or> (\<exists>r. abs_sim docling_lines precision_lines = Some (Inr r)))
   \<and> sim [] [] = Inr 100 \<and> section_similarity [] [] = Inr []"
proof (intro conjI)
  show "\<exists>r. sim precision docling = Inr r"
    unfolding sim_def using percent_ratio by blast
  show "\<exists>out. section_similarity docling precision = Inr out"
    unfolding section_similarity_def section_loop_value by blast
  show "\<exists>r. total_sim docling_lines precision_lines = Inr r"
    unfolding total_sim_def using percent_ratio by blast
  show "abs_sim docling_lines precision_lines = None
      \<or> (\<exists>r. abs_sim docling_lines precision_lines = Some (Inr r))"
  proof (cases "abstract_regions docling_lines precision_lines")
    case None
    then show ?thesis by (simp add: abs_sim_def)
  next
    case (Some reg)
    obtain d p where "reg = (d, p)" by (cases reg) auto
    with Some have a: "abs_sim docling_lines precision_lines = Some (percent (ratio d p))"
      by (simp add: abs_sim_def)
    obtain r where "percent (ratio d p) = Inr r" using percent_ratio [of d p] by blast
    with a show ?thesis by simp
  qed
  show "sim [] [] = Inr 100" by (simp add: sim_def percent_def ratio_value)
  show "section_similarity [] [] = Inr []" by code_simp
qed


section \<open>Markers and the Abstract region\<close>

lemma find_loop_absent:
  "\<forall>line \<in> set lines. \<not> py_in pat line \<Longrightarrow> find_loop i lines pat = 0"
  by (induction lines arbitrary: i) simp_all

lemma find_loop_found:
  "\<exists>line \<in> set lines. py_in pat line \<Longrightarrow>
   i \<le> find_loop i lines pat \<and> find_loop i lines pat - i < length lines
   \<and> py_in pat (lines ! (find_loop i lines pat - i))
   \<and> (\<forall>k < find_loop i lines pat - i. \<not> py_in pat (lines ! k))"
proof (induction lines arbitrary: i)
  case Nil
  then show ?case by simp
next
  case (Cons line lines)
  show ?case
  proof (cases "py_in pat line")
    case True
    then show ?thesis by simp
  next
    case False
    then have ex: "\<exists>line \<in> set lines. py_in pat line" using Cons.prems by simp
    define r where "r = find_loop (Suc i) lines pat"
    have ih: "Suc i \<le> r" "r - Suc i < length lines" "py_in pat (lines ! (r - Suc i))"
      "\<forall>k < r - Suc i. \<not> py_in pat (lines ! k)"
      using Cons.IH [OF ex, of "Suc i"] by (simp_all add: r_def)
    have e: "find_loop i (line # lines) pat = r" using False by (simp add: r_def)
    have d: "r - i = Suc (r - Suc i)" using ih(1) by simp
    have "\<forall>k < r - i. \<not> py_in pat ((line # lines) ! k)"
    proof (intro allI impI)
      fix k assume k: "k < r - i"
      show "\<not> py_in pat ((line # lines) ! k)"
      proof (cases k)
        case 0
        then show ?thesis using False by simp
      next
        case (Suc k')
        then have "k' < r - Suc i" using k d by simp
        then show ?thesis using ih(4) Suc by simp
      qed
    qed
    then show ?thesis unfolding e using ih d by simp
  qed
qed

text \<open>
  C7, as stated: when a marker is not found a sub-document is still returned, from line 0
  or through the end of the document. In the first run the reference has no
  \<^verbatim>\<open>## Abstract\<close> line, in the second neither document has a \<^verbatim>\<open>## 1 Introduction\<close>
  line after its \<^verbatim>\<open>## Abstract\<close>: \<^verbatim>\<open>find_section\<close> answers 0 and the guard skips the
  extraction.
\<close>

theorem missing_marker_counterexample:
  "find_section [''# T'', ''## 1 Introduction'', ''x''] ''## Abstract'' = 0
   \<and> abstract_regions [''# T'', ''## 1 Introduction'', ''x'']
        [''t'', ''## Abstract'', ''a'', ''## 1 Introduction''] = None
   \<and> find_section [''t'', ''## Abstract'', ''a'', ''b''] ''## Abstract'' = 1
   \<and> find_section [''t'', ''## Abstract'', ''a'', ''b''] ''## 1 Introduction'' = 0
   \<and> abstract_regions [''t'', ''## Abstract'', ''a'', ''b'']
        [''t'', ''## Abstract'', ''a'', ''b''] = None"
  by code_simp

text \<open>
  C7, amended: \<^verbatim>\<open>find_section\<close> returns the index of the first line that contains the
  marker, and 0 when no line contains it; when one of the two markers is not found in one
  of the two documents the extraction of the Abstract regions is skipped without failing
  and no sub-document is returned; when the four indices (both markers in both
  documents) are all different from 0, each region runs from the line of the start
  marker up to the line before the end marker.
\<close>

theorem find_section_and_guard:
  "((\<forall>line \<in> set lines. \<not> py_in pat line) \<longrightarrow> find_section lines pat = 0)
   \<and> ((\<exists>line \<in> set lines. py_in pat line) \<longrightarrow>
        find_section lines pat < length lines
        \<and> py_in pat (lines ! find_section lines pat)
        \<and> (\<forall>k < find_section lines pat. \<not> py_in pat (lines ! k)))
   \<and> ((\<forall>line \<in> set dl. \<not> py_in ''## Abstract'' line)
        \<or> (\<forall>line \<in> set pl. \<not> py_in ''## Abstract'' line)
        \<or> (\<forall>line \<in> set dl. \<not> py_in ''## 1 Introduction'' line)
        \<or> (\<forall>line \<in> set pl. \<not> py_in ''## 1 Introduction'' line)
      \<longrightarrow> abstract_regions dl pl = None \<and> abs_sim dl pl = None)
   \<and> (find_section dl ''## Abstract'' \<noteq> 0 \<and> find_section pl ''## Abstract'' \<noteq> 0
        \<and> find_section dl ''## 1 Introduction'' \<noteq> 0
        \<and> find_section pl ''## 1 Introduction'' \<noteq> 0
      \<longrightarrow> abstract_regions dl pl
          = Some (concat (slice dl (find_section dl ''## Abstract'')
                                   (find_section dl ''## 1 Introduction'')),
                  concat (slice pl (find_section pl ''## Abstract'')
                                   (find_section pl ''## 1 Introduction''))))"
proof (intro conjI impI)
  assume "\<forall>line \<in> set lines. \<not> py_in pat line"
  then show "find_section lines pat = 0"
    unfolding find_section_def by (rule find_loop_absent)
next
  assume ex: "\<exists>line \<in> set lines. py_in pat line"
  from find_loop_found [OF ex, of 0]
  show "find_section lines pat < length lines"
    and "py_in pat (lines ! find_section lines pat)"
    and "\<forall>k < find_section lines pat. \<not> py_in pat (lines ! k)"
    unfolding find_section_def by simp_all
next
  assume "(\<forall>line \<in> set dl. \<not> py_in ''## Abstract'' line)
        \<or> (\<forall>line \<in> set pl. \<not> py_in ''## Abstract'' line)
        \<or> (\<forall>line \<in> set dl. \<not> py_in ''## 1 Introduction'' line)
        \<or> (\<forall>line \<in> set pl. \<not> py_in ''## 1 Introduction'' line)"
  then have z: "find_section dl ''## Abstract'' = 0 \<or> find_section pl ''## Abstract'' = 0
        \<or> find_section dl ''## 1 Introduction'' = 0
        \<or> find_section pl ''## 1 Introduction'' = 0"
    unfolding find_section_def using find_loop_absent [of _ _ 0] by metis
  then show n: "abstract_regions dl pl = None"
    unfolding abstract_regions_def Let_def by auto
  then show "abs_sim dl pl = None" by (simp add: abs_sim_def)
next
  assume "find_section dl ''## Abstract'' \<noteq> 0 \<and> find_section pl ''## Abstract'' \<noteq> 0
        \<and> find_section dl ''## 1 Introduction'' \<noteq> 0
        \<and> find_section pl ''## 1 Introduction'' \<noteq> 0"
  then show "abstract_regions dl pl
          = Some (concat (slice dl (find_section dl ''## Abstract'')
                                   (find_section dl ''## 1 Introduction'')),
                  concat (slice pl (find_section pl ''## Abstract'')
                                   (find_section pl ''## 1 Introduction'')))"
    unfolding abstract_regions_def Let_def by simp
qed

theorem find_section_and_guard_witness:
  "find_section [''# Title''] ''## Abstract'' = 0
   \<and> abstract_regions [''# Title''] [''# Title''] = None
   \<and> find_section [''t'', ''## Abstract'', ''a'', ''## 1 Introduction'', ''z''] ''## Abstract'' = 1
   \<and> find_section [''t'', ''## Abstract'', ''a'', ''## 1 Introduction'', ''z'']
        ''## 1 Introduction'' = 3
   \<and> abstract_regions [''t'', ''## Abstract'', ''a'', ''## 1 Introduction'', ''z'']
        [''t'', ''## Abstract'', ''a'', ''## 1 Introduction'', ''z'']
      = Some (''## Abstracta'', ''## Abstracta'')"
proof -
  let ?l = "[''t'', ''## Abstract'', ''a'', ''## 1 Introduction'', ''z'']"
  have absent: "\<forall>line \<in> set [''# Title'']. \<not> py_in ''## Abstract'' line" by simp
  have present: "\<exists>line \<in> set ?l. py_in ''## Abstract'' line" by simp
  have a: "find_section ?l ''## Abstract'' = 1" by code_simp
  have i: "find_section ?l ''## 1 Introduction'' = 3" by code_simp
  have s: "concat (slice ?l 1 3) = ''## Abstracta''" by (simp add: slice_def)
  from find_section_and_guard [of "[''# Title'']" "''## Abstract''" "[''# Title'']" "[''# Title'']"]
    absent
  have 1: "find_section [''# Title''] ''## Abstract'' = 0"
    and 2: "abstract_regions [''# Title''] [''# Title''] = None"
    by simp_all
  from find_section_and_guard [of ?l "''## Abstract''" ?l ?l] present a i s
  have 3: "abstract_regions ?l ?l = Some (''## Abstracta'', ''## Abstracta'')"
    by simp
  from 1 2 a i 3 show ?thesis by simp
qed

section \<open>Opcodes tile both sequences\<close>

lemma opcodes_loop_tiles:
  "aligned a b i j xs ie je \<Longrightarrow> tiles i j (opcodes_loop i j (xs @ [(ie, je, 0)])) ie je"
proof (induction xs arbitrary: i j)
  case Nil
  then show ?case by (auto simp: shape_ok_def)
next
  case (Cons x xs)
  obtain ai bj k where x: "x = (ai, bj, k)" by (cases x) auto
  have al: "aligned a b (ai + k) (bj + k) xs ie je" and lo: "i \<le> ai" "j \<le> bj" and k: "0 < k"
    using Cons.prems x by simp_all
  have t: "tiles (ai + k) (bj + k) (opcodes_loop (ai + k) (bj + k) (xs @ [(ie, je, 0)])) ie je"
    by (rule Cons.IH [OF al])
  show ?case unfolding x using t lo k by (auto simp: shape_ok_def)
qed

lemma get_opcodes_tiles: "tiles 0 0 (get_opcodes a b) (length a) (length b)"
  unfolding get_opcodes_def get_matching_blocks_eq
  by (rule opcodes_loop_tiles [OF collapsed_aligned])


section \<open>Windowed diffing\<close>

lemma collect_issues_length: "length (collect_issues ls) \<le> length ls"
  by (induction ls) (simp_all add: le_SucI)

text \<open>
  C2, as stated: the diff output is never cut after the alignment. Two documents of 100
  lines with no line in common give a unified diff of 203 lines (three header lines, 100
  removed and 100 added lines); the script reads its first 200 lines only, so three added
  lines never become issues.
\<close>

theorem output_truncated_counterexample:
  "length (diff_first_100 (replicate 100 ''x'') (replicate 100 ''y'')) = 203
   \<and> length (collect_issues (diff_first_100 (replicate 100 ''x'') (replicate 100 ''y''))) = 200
   \<and> length (issues_of (replicate 100 ''x'') (replicate 100 ''y'')) = 197"
proof -
  have d: "diff_first_100 (replicate 100 ''x'') (replicate 100 ''y'')
      = [''--- docling'', ''+++ precision'', ''@@ -1,100 +1,100 @@'']
        @ replicate 100 ''-x'' @ replicate 100 ''+y''"
    by code_simp
  have 1: "length ([''--- docling'', ''+++ precision'', ''@@ -1,100 +1,100 @@'']
        @ replicate 100 ''-x'' @ replicate 100 ''+y'') = 203"
    by simp
  have 2: "length (collect_issues ([''--- docling'', ''+++ precision'', ''@@ -1,100 +1,100 @@'']
        @ replicate 100 ''-x'' @ replicate 100 ''+y'')) = 200"
    by code_simp
  have 3: "length (collect_issues (take 200
       ([''--- docling'', ''+++ precision'', ''@@ -1,100 +1,100 @@'']
        @ replicate 100 ''-x'' @ replicate 100 ''+y''))) = 197"
    by code_simp
  show ?thesis unfolding issues_of_def d using 1 2 3 by (intro conjI)
qed

text \<open>
  C2, amended: windowed diffing cuts both inputs to their first N lines before the
  alignment, and the opcodes computed on the cut inputs tile the window on each side, up
  to the length of the shorter input, with no gap and no overlap; the issues of
  \<^verbatim>\<open>detailed_diff.py\<close> depend on the first 100 lines of each document only, and are
  read from at most the first 200 lines of the unified diff.
\<close>

theorem windowed_opcodes_tile:
  "tiles 0 0 (get_opcodes (take N a) (take N b)) (min N (length a)) (min N (length b))
   \<and> (take 100 dl = take 100 dl' \<and> take 100 pl = take 100 pl'
        \<longrightarrow> issues_of dl pl = issues_of dl' pl')
   \<and> length (issues_of dl pl) \<le> 200"
proof (intro conjI impI)
  have "tiles 0 0 (get_opcodes (take N a) (take N b)) (length (take N a)) (length (take N b))"
    by (rule get_opcodes_tiles)
  then show "tiles 0 0 (get_opcodes (take N a) (take N b)) (min N (length a)) (min N (length b))"
    by (simp add: min.commute)
next
  assume "take 100 dl = take 100 dl' \<and> take 100 pl = take 100 pl'"
  then show "issues_of dl pl = issues_of dl' pl'"
    by (simp add: issues_of_def diff_first_100_def)
next
  have "length (issues_of dl pl) \<le> length (take 200 (diff_first_100 dl pl))"
    unfolding issues_of_def by (rule collect_issues_length)
  then show "length (issues_of dl pl) \<le> 200" by simp
qed

theorem windowed_opcodes_tile_witness:
  "take 100 (replicate 100 ''a'' @ [''b'']) = take 100 (replicate 100 ''a'' @ [''c''])
   \<and> issues_of (replicate 100 ''a'' @ [''b'']) [''p'']
     = issues_of (replicate 100 ''a'' @ [''c'']) [''p'']"
  using windowed_opcodes_tile [of 0 "[] :: string list" "[]"
      "replicate 100 ''a'' @ [''b'']" "replicate 100 ''a'' @ [''c'']" "[''p'']" "[''p'']"]
  by simp

section \<open>Repeated comparisons\<close>

lemma coherent_new: "coherent (SequenceMatcher a b)"
  by (simp add: coherent_def SequenceMatcher_def)

lemma get_matching_blocks_m_coherent:
  assumes "coherent s"
  shows "fst (get_matching_blocks_m s) = get_matching_blocks (seq_a s) (seq_b s)"
    and "coherent (snd (get_matching_blocks_m s))"
    and "seq_a (snd (get_matching_blocks_m s)) = seq_a s"
    and "seq_b (snd (get_matching_blocks_m s)) = seq_b s"
    and "cached_blocks (snd (get_matching_blocks_m s))
           = Some (get_matching_blocks (seq_a s) (seq_b s))"
  using assms
  by (auto simp: get_matching_blocks_m_def coherent_def Let_def split: option.splits)

lemma ratio_m_coherent:
  assumes "coherent s"
  shows "fst (ratio_m s) = ratio (seq_a s) (seq_b s)"
    and "coherent (snd (ratio_m s))"
    and "seq_a (snd (ratio_m s)) = seq_a s" and "seq_b (snd (ratio_m s)) = seq_b s"
proof -
  obtain m s' where g: "get_matching_blocks_m s = (m, s')"
    by (cases "get_matching_blocks_m s") auto
  note f = get_matching_blocks_m_coherent [OF assms, unfolded g fst_conv snd_conv]
  have r: "ratio_m s = (calculate_ratio (sizes m) (length (seq_a s') + length (seq_b s')), s')"
    by (simp add: ratio_m_def g sizes_def)
  show "fst (ratio_m s) = ratio (seq_a s) (seq_b s)"
    unfolding r using f by (simp add: ratio_def matches_def sizes_def)
  show "coherent (snd (ratio_m s))" unfolding r using f by simp
  show "seq_a (snd (ratio_m s)) = seq_a s" "seq_b (snd (ratio_m s)) = seq_b s"
    unfolding r using f by simp_all
qed

lemma get_opcodes_m_coherent:
  assumes "coherent s"
  shows "fst (get_opcodes_m s) = get_opcodes (seq_a s) (seq_b s)"
    and "coherent (snd (get_opcodes_m s))"
    and "seq_a (snd (get_opcodes_m s)) = seq_a s" and "seq_b (snd (get_opcodes_m s)) = seq_b s"
proof -
  obtain m s' where g: "get_matching_blocks_m s = (m, s')"
    by (cases "get_matching_blocks_m s") auto
  note f = get_matching_blocks_m_coherent [OF assms, unfolded g fst_conv snd_conv]
  show "fst (get_opcodes_m s) = get_opcodes (seq_a s) (seq_b s)"
    using assms f
    by (auto simp: get_opcodes_m_def g coherent_def get_opcodes_def Let_def split: option.splits)
  show "coherent (snd (get_opcodes_m s))"
    using assms f
    by (auto simp: get_opcodes_m_def g coherent_def get_opcodes_def Let_def split: option.splits)
  show "seq_a (snd (get_opcodes_m s)) = seq_a s" "seq_b (snd (get_opcodes_m s)) = seq_b s"
    using f by (auto simp: get_opcodes_m_def g Let_def split: option.splits)
qed

text \<open>
  C9: a comparison is a function of its two inputs and repeating it changes nothing. On
  every coherent matcher, a new one in particular, \<^verbatim>\<open>ratio()\<close> and \<^verbatim>\<open>get_opcodes()\<close>
  return the values determined by the two sequences alone, whatever the caches hold,
  leave the sequences as they were and leave the matcher coherent; so a second call, on
  the same object or on a new one for equal inputs, returns the same ratio and hunks.
\<close>

theorem comparison_idempotent:
  "coherent (SequenceMatcher a b)
   \<and> (coherent s \<longrightarrow>
        fst (ratio_m s) = ratio (seq_a s) (seq_b s)
        \<and> fst (get_opcodes_m s) = get_opcodes (seq_a s) (seq_b s)
        \<and> coherent (snd (ratio_m s)) \<and> coherent (snd (get_opcodes_m s))
        \<and> seq_a (snd (ratio_m s)) = seq_a s \<and> seq_b (snd (ratio_m s)) = seq_b s
        \<and> seq_a (snd (get_opcodes_m s)) = seq_a s \<and> seq_b (snd (get_opcodes_m s)) = seq_b s
        \<and> fst (ratio_m (snd (ratio_m s))) = fst (ratio_m s)
        \<and> fst (ratio_m (snd (get_opcodes_m s))) = fst (ratio_m s)
        \<and> fst (get_opcodes_m (snd (ratio_m s))) = fst (get_opcodes_m s)
        \<and> snd (ratio_m (snd (ratio_m s))) = snd (ratio_m s))"
proof (intro conjI impI)
  show "coherent (SequenceMatcher a b)" by (rule coherent_new)
next
  assume c: "coherent s"
  note r = ratio_m_coherent [OF c]
  note g = get_opcodes_m_coherent [OF c]
  note rr = ratio_m_coherent [OF r(2)]
  note rg = ratio_m_coherent [OF g(2)]
  note gr = get_opcodes_m_coherent [OF r(2)]
  show "fst (ratio_m s) = ratio (seq_a s) (seq_b s)" by (rule r(1))
  show "fst (get_opcodes_m s) = get_opcodes (seq_a s) (seq_b s)" by (rule g(1))
  show "coherent (snd (ratio_m s))" by (rule r(2))
  show "coherent (snd (get_opcodes_m s))" by (rule g(2))
  show "seq_a (snd (ratio_m s)) = seq_a s" by (rule r(3))
  show "seq_b (snd (ratio_m s)) = seq_b s" by (rule r(4))
  show "seq_a (snd (get_opcodes_m s)) = seq_a s" by (rule g(3))
  show "seq_b (snd (get_opcodes_m s)) = seq_b s" by (rule g(4))
  show "fst (ratio_m (snd (ratio_m s))) = fst (ratio_m s)"
    unfolding rr(1) r(1) r(3) r(4) ..
  show "fst (ratio_m (snd (get_opcodes_m s))) = fst (ratio_m s)"
    unfolding rg(1) r(1) g(3) g(4) ..
  show "fst (get_opcodes_m (snd (ratio_m s))) = fst (get_opcodes_m s)"
    unfolding gr(1) g(1) r(3) r(4) ..
  show "snd (ratio_m (snd (ratio_m s))) = snd (ratio_m s)"
  proof -
    obtain m s' where gm: "get_matching_blocks_m s = (m, s')"
      by (cases "get_matching_blocks_m s") auto
    have s': "snd (ratio_m s) = s'" by (simp add: ratio_m_def gm)
    from get_matching_blocks_m_coherent(5) [OF c] gm
    have "cached_blocks s' = Some (get_matching_blocks (seq_a s) (seq_b s))" by simp
    then have "get_matching_blocks_m s' = (get_matching_blocks (seq_a s) (seq_b s), s')"
      by (simp add: get_matching_blocks_m_def)
    then have "snd (ratio_m s') = s'" by (simp add: ratio_m_def)
    then show ?thesis unfolding s' .
  qed
qed

theorem comparison_idempotent_witness:
  "coherent (SequenceMatcher ''tide'' ''diet'')
   \<and> fst (ratio_m (SequenceMatcher ''tide'' ''diet'')) = Inr (1 / 4)
   \<and> fst (ratio_m (snd (ratio_m (SequenceMatcher ''tide'' ''diet'')))) = Inr (1 / 4)
   \<and> fst (ratio_m (snd (get_opcodes_m (SequenceMatcher ''tide'' ''diet'')))) = Inr (1 / 4)"
proof -
  have c: "coherent (SequenceMatcher ''tide'' ''diet'')" by (rule coherent_new)
  have v: "ratio ''tide'' ''diet'' = Inr (1 / 4)" by code_simp
  from comparison_idempotent [of "''tide''" "''diet''" "SequenceMatcher ''tide'' ''diet''"] c v
  show ?thesis by (simp add: SequenceMatcher_def)
qed

end
